theory Spec2Isabelle
  imports Main
begin

section \<open>Dice formulas: data model\<close>

text \<open>
  The development follows \<^verbatim>\<open>dice.py\<close>. Python's unbounded integers are \<^typ>\<open>int\<close>.
  A formula is a \<^typ>\<open>string\<close>; HOL characters are the code points below 256, so the
  inputs covered are the texts over that range (all of the grammar's own characters
  lie in it). On that range \<^verbatim>\<open>str.isdecimal\<close> holds exactly for the ten ASCII digits
  and \<^verbatim>\<open>str.isspace\<close> for the code points 9-13, 28-32, 133 and 160. The interpreter's
  configurable cap on the number of digits of an int/str conversion is not part of the
  model: \<^verbatim>\<open>int\<close> and \<^verbatim>\<open>str\<close> convert numbers of any size.

  Every exception is a value of \<open>error\<close>:
  \<^item> \<open>InvalidInput\<close>: the \<^verbatim>\<open>ValueError\<close> of \<^verbatim>\<open>Lexer.__init__\<close> on empty text;
  \<^item> \<open>InvalidCharacter c i\<close>: the \<^verbatim>\<open>ValueError\<close> of \<^verbatim>\<open>get_next_token\<close>;
  \<^item> \<open>UnexpectedToken expected actual\<close>: the \<^verbatim>\<open>ValueError\<close> of \<^verbatim>\<open>Parser.eat\<close>;
  \<^item> \<open>InvalidArgument ahead\<close>: the failed assertion of \<^verbatim>\<open>peek_next_token\<close>;
  \<^item> \<open>AssertionFailed\<close>: any other failed \<^verbatim>\<open>assert\<close>;
  \<^item> \<open>NoneAttribute\<close>: the \<^verbatim>\<open>AttributeError\<close> of calling \<^verbatim>\<open>isdecimal\<close> on \<^verbatim>\<open>None\<close>;
  \<^item> \<open>UnboundLocal\<close>: reading \<^verbatim>\<open>token\<close> in \<^verbatim>\<open>peek_next_token\<close> before any assignment;
  \<^item> \<open>EmptyRange a b\<close>: the \<^verbatim>\<open>ValueError\<close> of \<^verbatim>\<open>random.randint(a, b)\<close> when \<open>b < a\<close>.
\<close>

datatype TokenType = INTEGER | DELIM | PLUS | MINUS | EOF

datatype tok_value = IntVal int | StrVal string | NoVal

datatype Token = Token (tok_type: TokenType) (tok_value: tok_value)

datatype error =
    InvalidInput
  | InvalidCharacter char nat
  | UnexpectedToken TokenType TokenType
  | InvalidArgument int
  | AssertionFailed
  | NoneAttribute
  | UnboundLocal
  | EmptyRange int int

record Die =
  sides :: int
  num_dice :: int
  modifier :: int

record DiceBagItem =
  die :: Die
  subtracted :: bool

type_synonym DiceBag = "DiceBagItem list"

section \<open>Lexer\<close>

record Lexer =
  lex_text :: string
  pos :: nat
  current_char :: "char option"

definition isdecimal :: "char \<Rightarrow> bool" where
  "isdecimal c = (let n = (of_char c :: nat) in 48 \<le> n \<and> n \<le> 57)"

definition isspace :: "char \<Rightarrow> bool" where
  "isspace c = (let n = (of_char c :: nat) in
     (9 \<le> n \<and> n \<le> 13) \<or> (28 \<le> n \<and> n \<le> 32) \<or> n = 133 \<or> n = 160)"

text \<open>\<^verbatim>\<open>int(result)\<close> on a run of decimal digits, most significant digit first.\<close>

definition digit_val :: "char \<Rightarrow> int" where
  "digit_val c = int (of_char c) - 48"

definition int_of_decimal :: "string \<Rightarrow> int" where
  "int_of_decimal s = foldl (\<lambda>acc c. 10 * acc + digit_val c) 0 s"

text \<open>\<^verbatim>\<open>Lexer.__init__\<close>: empty text is rejected; otherwise the cursor is on character 0.\<close>

definition Lexer_init :: "string \<Rightarrow> error + Lexer" where
  "Lexer_init formula =
     (case formula of
        [] \<Rightarrow> Inl InvalidInput
      | c # _ \<Rightarrow> Inr \<lparr>lex_text = formula, pos = 0, current_char = Some c\<rparr>)"

text \<open>The setter of the property \<^verbatim>\<open>pos\<close>: it also refreshes \<^verbatim>\<open>current_char\<close>.\<close>

definition set_pos :: "Lexer \<Rightarrow> nat \<Rightarrow> Lexer" where
  "set_pos lx v =
     (if v \<ge> length (lex_text lx) then lx\<lparr>pos := v, current_char := None\<rparr>
      else lx\<lparr>pos := v, current_char := Some (lex_text lx ! v)\<rparr>)"

definition advance :: "Lexer \<Rightarrow> Lexer" where
  "advance lx = set_pos lx (pos lx + 1)"

text \<open>
  What is left to read, as a number that every \<open>advance\<close> from a state with a current
  character makes smaller; it bounds the loops of the lexer and of the parser.
\<close>

definition remaining :: "Lexer \<Rightarrow> nat" where
  "remaining lx =
     (case current_char lx of None \<Rightarrow> 0 | Some _ \<Rightarrow> Suc (length (lex_text lx) - pos lx))"

lemma remaining_advance:
  "current_char lx = Some c \<Longrightarrow> remaining (advance lx) < remaining lx"
  by (auto simp: remaining_def advance_def set_pos_def)

function skip_whitespace :: "Lexer \<Rightarrow> Lexer" where
  "skip_whitespace lx =
     (case current_char lx of
        None \<Rightarrow> lx
      | Some c \<Rightarrow> if isspace c then skip_whitespace (advance lx) else lx)"
  by pat_completeness auto
termination
  by (relation "measure remaining") (auto simp: remaining_advance)

declare skip_whitespace.simps [simp del]

text \<open>The loop of \<^verbatim>\<open>Lexer.integer\<close>, with the digits read so far.\<close>

function integer_loop :: "Lexer \<Rightarrow> string \<Rightarrow> string \<times> Lexer" where
  "integer_loop lx result =
     (case current_char lx of
        None \<Rightarrow> (result, lx)
      | Some c \<Rightarrow>
          if isdecimal c then integer_loop (advance lx) (result @ [c])
          else (result, lx))"
  by pat_completeness auto
termination
  by (relation "measure (\<lambda>(lx, result). remaining lx)") (auto simp: remaining_advance)

declare integer_loop.simps [simp del]

definition integer :: "Lexer \<Rightarrow> error + (int \<times> Lexer)" where
  "integer lx =
     (case current_char lx of
        None \<Rightarrow> Inl AssertionFailed
      | Some c \<Rightarrow>
          if \<not> isdecimal c then Inl AssertionFailed
          else (case integer_loop lx [] of
                  (result, lx') \<Rightarrow> Inr (int_of_decimal result, lx')))"

text \<open>
  \<^verbatim>\<open>Lexer.get_next_token\<close>. The body of its \<^verbatim>\<open>while\<close> returns or raises in its first
  round, so the loop is a conditional. After \<^verbatim>\<open>skip_whitespace\<close> the current character
  may be \<^verbatim>\<open>None\<close>, and \<^verbatim>\<open>None.isdecimal()\<close> raises.
\<close>

definition get_next_token :: "Lexer \<Rightarrow> error + (Token \<times> Lexer)" where
  "get_next_token lx =
     (case current_char lx of
        None \<Rightarrow> Inr (Token EOF NoVal, lx)
      | Some _ \<Rightarrow>
          (let lx1 = skip_whitespace lx in
           case current_char lx1 of
             None \<Rightarrow> Inl NoneAttribute
           | Some c \<Rightarrow>
               if isdecimal c then
                 (case integer lx1 of
                    Inl e \<Rightarrow> Inl e
                  | Inr (v, lx2) \<Rightarrow> Inr (Token INTEGER (IntVal v), lx2))
               else if c = CHR ''d'' then Inr (Token DELIM (StrVal ''d''), advance lx1)
               else if c = CHR ''+'' then Inr (Token PLUS (StrVal ''+''), advance lx1)
               else if c = CHR ''-'' then Inr (Token MINUS (StrVal ''-''), advance lx1)
               else Inl (InvalidCharacter c (pos lx1))))"

text \<open>
  \<^verbatim>\<open>Lexer.peek_next_token\<close>: the \<^verbatim>\<open>for\<close> loop over \<^verbatim>\<open>range(ahead)\<close> keeps the last token read
  (none before the first round); the cursor is then put back through the setter.
\<close>

fun peek_loop :: "nat \<Rightarrow> Lexer \<Rightarrow> Token option \<Rightarrow> error + (Token option \<times> Lexer)" where
  "peek_loop 0 lx tok = Inr (tok, lx)"
| "peek_loop (Suc n) lx tok =
     (case get_next_token lx of
        Inl e \<Rightarrow> Inl e
      | Inr (t, lx') \<Rightarrow> peek_loop n lx' (Some t))"

definition peek_next_token :: "Lexer \<Rightarrow> int \<Rightarrow> error + (Token \<times> Lexer)" where
  "peek_next_token lx ahead =
     (if \<not> ahead > 0 then Inl (InvalidArgument ahead)
      else (case peek_loop (nat ahead) lx None of
              Inl e \<Rightarrow> Inl e
            | Inr (None, lx') \<Rightarrow> Inl UnboundLocal
            | Inr (Some t, lx') \<Rightarrow> Inr (t, set_pos lx' (pos lx))))"

section \<open>The lexer's invariant and its progress\<close>

text \<open>
  Every state the class can reach has \<^verbatim>\<open>current_char\<close> in agreement with the cursor: the
  constructor establishes it and every later change of the cursor goes through the setter.
\<close>

definition cc_ok :: "Lexer \<Rightarrow> bool" where
  "cc_ok lx = (current_char lx =
     (if pos lx \<ge> length (lex_text lx) then None else Some (lex_text lx ! pos lx)))"

lemma set_pos_simps [simp]:
  "lex_text (set_pos lx v) = lex_text lx" "pos (set_pos lx v) = v"
  by (simp_all add: set_pos_def)

lemma cc_ok_set_pos [simp]: "cc_ok (set_pos lx v)"
  by (simp add: cc_ok_def set_pos_def)

lemma advance_simps [simp]:
  "lex_text (advance lx) = lex_text lx" "pos (advance lx) = Suc (pos lx)" "cc_ok (advance lx)"
  by (simp_all add: advance_def)

lemma skip_whitespace_text [simp]: "lex_text (skip_whitespace lx) = lex_text lx"
proof (induction lx rule: skip_whitespace.induct)
  case (1 lx)
  then show ?case
    by (subst skip_whitespace.simps) (simp split: option.splits)
qed

lemma skip_whitespace_remaining: "remaining (skip_whitespace lx) \<le> remaining lx"
proof (induction lx rule: skip_whitespace.induct)
  case (1 lx)
  show ?case
  proof (cases "current_char lx")
    case None
    then show ?thesis by (subst skip_whitespace.simps) simp
  next
    case (Some c)
    with 1 remaining_advance [OF Some] show ?thesis
      by (subst skip_whitespace.simps) auto
  qed
qed

lemma skip_whitespace_cc_ok: "cc_ok lx \<Longrightarrow> cc_ok (skip_whitespace lx)"
proof (induction lx rule: skip_whitespace.induct)
  case (1 lx)
  then show ?case
    by (subst skip_whitespace.simps) (simp split: option.splits)
qed

lemma integer_loop_text: "integer_loop lx r = (r', lx') \<Longrightarrow> lex_text lx' = lex_text lx"
proof (induction lx r rule: integer_loop.induct)
  case (1 lx result)
  from "1.prems" show ?case
    by (subst (asm) integer_loop.simps) (auto split: option.splits if_splits dest: "1.IH")
qed

lemma integer_loop_remaining: "integer_loop lx r = (r', lx') \<Longrightarrow> remaining lx' \<le> remaining lx"
proof (induction lx r rule: integer_loop.induct)
  case (1 lx result)
  show ?case
  proof (cases "current_char lx")
    case None
    with "1.prems" show ?thesis by (subst (asm) integer_loop.simps) simp
  next
    case (Some c)
    with "1.prems" "1.IH" remaining_advance [OF Some] show ?thesis
      by (subst (asm) integer_loop.simps) (fastforce split: if_splits)
  qed
qed

lemma integer_loop_cc_ok: "integer_loop lx r = (r', lx') \<Longrightarrow> cc_ok lx \<Longrightarrow> cc_ok lx'"
proof (induction lx r rule: integer_loop.induct)
  case (1 lx result)
  from "1.prems" show ?case
    by (subst (asm) integer_loop.simps) (auto split: option.splits if_splits dest: "1.IH")
qed

lemma integer_remaining:
  assumes "integer lx = Inr (v, lx')"
  shows "remaining lx' < remaining lx" and "lex_text lx' = lex_text lx" and "cc_ok lx'"
proof -
  from assms obtain c r where c: "current_char lx = Some c" "isdecimal c"
    and r: "integer_loop lx [] = (r, lx')"
    by (auto simp: integer_def split: option.splits if_splits prod.splits)
  from r c have r': "integer_loop (advance lx) [c] = (r, lx')"
    by (subst (asm) integer_loop.simps) simp
  from integer_loop_remaining [OF r'] remaining_advance [OF c(1)]
  show "remaining lx' < remaining lx" by simp
  from integer_loop_text [OF r'] show "lex_text lx' = lex_text lx" by simp
  from integer_loop_cc_ok [OF r'] show "cc_ok lx'" by simp
qed

lemma get_next_token_text:
  "get_next_token lx = Inr (t, lx') \<Longrightarrow> lex_text lx' = lex_text lx"
  by (auto simp: get_next_token_def Let_def integer_remaining(2)
      split: option.splits if_splits sum.splits)


lemma get_next_token_remaining:
  assumes "get_next_token lx = Inr (t, lx')"
  shows "remaining lx' \<le> remaining lx"
proof (cases "current_char lx")
  case None
  with assms show ?thesis by (simp add: get_next_token_def)
next
  case (Some a)
  let ?l = "skip_whitespace lx"
  have le: "remaining ?l \<le> remaining lx" by (rule skip_whitespace_remaining)
  from assms Some obtain c where c: "current_char ?l = Some c"
    by (auto simp: get_next_token_def Let_def split: option.splits)
  from assms Some c have "remaining lx' < remaining ?l"
    using remaining_advance [OF c] integer_remaining(1) [of ?l]
    by (auto simp: get_next_token_def Let_def split: if_splits sum.splits)
  with le show ?thesis by simp
qed

lemma get_next_token_progress:
  assumes "get_next_token lx = Inr (t, lx')" and "tok_type t \<noteq> EOF"
  shows "remaining lx' < remaining lx" and "cc_ok lx'"
proof -
  from assms obtain a where Some: "current_char lx = Some a"
    by (cases "current_char lx") (auto simp: get_next_token_def)
  let ?l = "skip_whitespace lx"
  have le: "remaining ?l \<le> remaining lx" by (rule skip_whitespace_remaining)
  from assms Some obtain c where c: "current_char ?l = Some c"
    by (auto simp: get_next_token_def Let_def split: option.splits)
  from assms Some c have "remaining lx' < remaining ?l"
    using remaining_advance [OF c] integer_remaining(1) [of ?l]
    by (auto simp: get_next_token_def Let_def split: if_splits sum.splits)
  with le show "remaining lx' < remaining lx" by simp
  from assms Some c show "cc_ok lx'"
    using integer_remaining(3) [of ?l]
    by (auto simp: get_next_token_def Let_def split: if_splits sum.splits)
qed

lemma get_next_token_cc_ok:
  assumes "get_next_token lx = Inr (t, lx')" and "cc_ok lx"
  shows "cc_ok lx'"
proof (cases "tok_type t = EOF")
  case True
  with assms show ?thesis
    by (auto simp: get_next_token_def Let_def split: option.splits if_splits sum.splits)
next
  case False
  with assms(1) show ?thesis by (rule get_next_token_progress(2))
qed

lemma peek_loop_text:
  "peek_loop n lx tok = Inr (r, lx') \<Longrightarrow> lex_text lx' = lex_text lx"
proof (induction n arbitrary: lx tok)
  case 0
  then show ?case by simp
next
  case (Suc n)
  then show ?case
    by (auto split: sum.splits dest!: get_next_token_text)
qed

lemma set_pos_cong: "lex_text lx' = lex_text lx \<Longrightarrow> set_pos lx' v = set_pos lx v"
  by (simp add: set_pos_def)

lemma set_pos_same: "cc_ok lx \<Longrightarrow> set_pos lx (pos lx) = lx"
  by (auto simp: set_pos_def cc_ok_def)

lemma peek_next_token_lexer:
  "peek_next_token lx ahead = Inr (t, lx') \<Longrightarrow> lx' = set_pos lx (pos lx)"
  by (auto simp: peek_next_token_def split: if_splits sum.splits option.splits
      dest!: peek_loop_text intro: set_pos_cong)

lemma peek_one_not_EOF:
  assumes "peek_next_token lx 1 = Inr (t, lx')" and "tok_type t \<noteq> EOF"
  shows "current_char lx \<noteq> None"
proof
  assume "current_char lx = None"
  then have "get_next_token lx = Inr (Token EOF NoVal, lx)"
    by (simp add: get_next_token_def)
  with assms show False
    by (auto simp: peek_next_token_def)
qed

lemma remaining_set_pos_same:
  "current_char lx \<noteq> None \<Longrightarrow> remaining (set_pos lx (pos lx)) \<le> remaining lx"
  by (auto simp: remaining_def set_pos_def)


section \<open>Parser\<close>

record Parser =
  lexer :: Lexer
  current_token :: Token

definition Parser_init :: "string \<Rightarrow> error + Parser" where
  "Parser_init formula =
     (case Lexer_init formula of
        Inl e \<Rightarrow> Inl e
      | Inr lx \<Rightarrow>
          (case get_next_token lx of
             Inl e \<Rightarrow> Inl e
           | Inr (t, lx') \<Rightarrow> Inr \<lparr>lexer = lx', current_token = t\<rparr>))"

definition eat :: "TokenType \<Rightarrow> Parser \<Rightarrow> error + Parser" where
  "eat expected_token_type p =
     (if expected_token_type = tok_type (current_token p) then
        (case get_next_token (lexer p) of
           Inl e \<Rightarrow> Inl e
         | Inr (t, lx') \<Rightarrow> Inr (p\<lparr>lexer := lx', current_token := t\<rparr>))
      else Inl (UnexpectedToken expected_token_type (tok_type (current_token p))))"

definition Parser_peek_next_token :: "Parser \<Rightarrow> int \<Rightarrow> error + (Token \<times> Parser)" where
  "Parser_peek_next_token p ahead =
     (case peek_next_token (lexer p) ahead of
        Inl e \<Rightarrow> Inl e
      | Inr (t, lx') \<Rightarrow> Inr (t, p\<lparr>lexer := lx'\<rparr>))"

text \<open>
  One clause \<^verbatim>\<open>(PLUS|MINUS) integer\<close> of the loop of \<^verbatim>\<open>Parser.die\<close>: the operator and
  the integer are eaten and the integer's value is returned. The \<^verbatim>\<open>assert\<close> on the type
  of the token's value is the case distinction on \<open>tok_value\<close>.
\<close>

definition eat_clause :: "TokenType \<Rightarrow> Parser \<Rightarrow> error + (int \<times> Parser)" where
  "eat_clause operator p =
     (case eat operator p of
        Inl e \<Rightarrow> Inl e
      | Inr p1 \<Rightarrow>
          (let token = current_token p1 in
           case eat INTEGER p1 of
             Inl e \<Rightarrow> Inl e
           | Inr p2 \<Rightarrow>
               (case tok_value token of
                  IntVal v \<Rightarrow> Inr (v, p2)
                | _ \<Rightarrow> Inl AssertionFailed)))"

lemma eat_remaining:
  "eat k p = Inr p' \<Longrightarrow> remaining (lexer p') \<le> remaining (lexer p)"
  by (auto simp: eat_def split: if_splits sum.splits dest: get_next_token_remaining)

lemma eat_progress:
  "eat k p = Inr p' \<Longrightarrow> tok_type (current_token p') \<noteq> EOF \<Longrightarrow>
   remaining (lexer p') < remaining (lexer p) \<and> cc_ok (lexer p')"
  by (auto simp: eat_def split: if_splits sum.splits dest: get_next_token_progress)

lemma eat_cc_ok: "eat k p = Inr p' \<Longrightarrow> cc_ok (lexer p) \<Longrightarrow> cc_ok (lexer p')"
  by (auto simp: eat_def split: if_splits sum.splits dest: get_next_token_cc_ok)

lemma eat_type: "eat k p = Inr p' \<Longrightarrow> tok_type (current_token p) = k"
  by (auto simp: eat_def split: if_splits)

lemma eat_clause_progress:
  assumes "eat_clause k p = Inr (v, p')"
  shows "remaining (lexer p') < remaining (lexer p)" and "cc_ok (lexer p')"
proof -
  from assms obtain p1 where p1: "eat k p = Inr p1" and p2: "eat INTEGER p1 = Inr p'"
    by (auto simp: eat_clause_def Let_def split: sum.splits tok_value.splits)
  from eat_type [OF p2] have ne: "tok_type (current_token p1) \<noteq> EOF" by simp
  from eat_progress [OF p1 ne] eat_remaining [OF p2]
  show "remaining (lexer p') < remaining (lexer p)" by simp
  from eat_progress [OF p1 ne] eat_cc_ok [OF p2] show "cc_ok (lexer p')" by simp
qed

lemma Parser_peek_lexer:
  "Parser_peek_next_token p ahead = Inr (t, p') \<Longrightarrow>
   p' = p\<lparr>lexer := set_pos (lexer p) (pos (lexer p))\<rparr>"
  by (auto simp: Parser_peek_next_token_def split: sum.splits dest: peek_next_token_lexer)

lemma Parser_peek_one_remaining:
  assumes "Parser_peek_next_token p 1 = Inr (t, p')" and "tok_type t = INTEGER"
  shows "remaining (lexer p') \<le> remaining (lexer p)" and "cc_ok (lexer p')"
proof -
  from assms have "current_char (lexer p) \<noteq> None"
    by (auto simp: Parser_peek_next_token_def split: sum.splits dest!: peek_one_not_EOF)
  with Parser_peek_lexer [OF assms(1)]
  show "remaining (lexer p') \<le> remaining (lexer p)"
    by (simp add: remaining_set_pos_same)
  from Parser_peek_lexer [OF assms(1)] show "cc_ok (lexer p')" by simp
qed

lemma Parser_peek_cc_ok:
  "Parser_peek_next_token p ahead = Inr (t, p') \<Longrightarrow> cc_ok (lexer p) \<Longrightarrow> p' = p"
  by (drule Parser_peek_lexer) (simp add: set_pos_same)

text \<open>
  The \<^verbatim>\<open>while\<close> loop of \<^verbatim>\<open>Parser.die\<close>, with the modifier accumulated so far. The second
  look-ahead is made only when the first one saw an integer (\<^verbatim>\<open>and\<close> short-circuits).
\<close>

function die_loop :: "Parser \<Rightarrow> int \<Rightarrow> error + (int \<times> Parser)" where
  "die_loop p m =
     (if tok_type (current_token p) = PLUS \<or> tok_type (current_token p) = MINUS then
        (case Parser_peek_next_token p 1 of
           Inl e \<Rightarrow> Inl e
         | Inr (t1, p1) \<Rightarrow>
             if tok_type t1 \<noteq> INTEGER then Inr (m, p1)
             else
               (case Parser_peek_next_token p1 2 of
                  Inl e \<Rightarrow> Inl e
                | Inr (t2, p2) \<Rightarrow>
                    if \<not> tok_type t2 \<noteq> DELIM then Inr (m, p2)
                    else if tok_type (current_token p2) = PLUS then
                      (case eat_clause PLUS p2 of
                         Inl e \<Rightarrow> Inl e
                       | Inr (v, p3) \<Rightarrow> die_loop p3 (m + v))
                    else
                      (case eat_clause MINUS p2 of
                         Inl e \<Rightarrow> Inl e
                       | Inr (v, p3) \<Rightarrow> die_loop p3 (m - v))))
      else Inr (m, p))"
  by pat_completeness auto
termination
proof (relation "measure (\<lambda>(p, m). remaining (lexer p))", goal_cases)
  case 1
  show ?case by simp
next
  case (2 p m x2 t1 p1 x2a t2 p2 x2b v p3)
  then have a: "Parser_peek_next_token p 1 = Inr (t1, p1)" "tok_type t1 = INTEGER"
    and b: "Parser_peek_next_token p1 2 = Inr (t2, p2)"
    and c: "eat_clause PLUS p2 = Inr (v, p3)" by simp_all
  from Parser_peek_one_remaining [OF a] Parser_peek_cc_ok [OF b] eat_clause_progress(1) [OF c]
  show ?case by simp
next
  case (3 p m x2 t1 p1 x2a t2 p2 x2b v p3)
  then have a: "Parser_peek_next_token p 1 = Inr (t1, p1)" "tok_type t1 = INTEGER"
    and b: "Parser_peek_next_token p1 2 = Inr (t2, p2)"
    and c: "eat_clause MINUS p2 = Inr (v, p3)" by simp_all
  from Parser_peek_one_remaining [OF a] Parser_peek_cc_ok [OF b] eat_clause_progress(1) [OF c]
  show ?case by simp
qed

declare die_loop.simps [simp del]

lemma die_loop_remaining:
  "die_loop p m = Inr (m', p') \<Longrightarrow> cc_ok (lexer p) \<Longrightarrow>
   remaining (lexer p') \<le> remaining (lexer p) \<and> cc_ok (lexer p')"
proof (induction p m rule: die_loop.induct)
  case (1 p m)
  show ?case
  proof (cases "tok_type (current_token p) = PLUS \<or> tok_type (current_token p) = MINUS")
    case False
    with "1.prems" show ?thesis by (subst (asm) die_loop.simps) auto
  next
    case op: True
    from "1.prems"(1) op obtain t1 p1 where a: "Parser_peek_next_token p 1 = Inr (t1, p1)"
      by (subst (asm) die_loop.simps) (auto split: sum.splits)
    from Parser_peek_cc_ok [OF a "1.prems"(2)] have p1: "p1 = p" .
    show ?thesis
    proof (cases "tok_type t1 = INTEGER")
      case False
      with "1.prems" op a p1 show ?thesis by (subst (asm) die_loop.simps) auto
    next
      case int: True
      from "1.prems"(1) op a int obtain t2 p2 where b: "Parser_peek_next_token p1 2 = Inr (t2, p2)"
        by (subst (asm) die_loop.simps) (auto split: sum.splits)
      from Parser_peek_cc_ok [OF b] p1 "1.prems"(2) have p2: "p2 = p" by simp
      show ?thesis
      proof (cases "tok_type t2 = DELIM")
        case True
        with "1.prems" op a int b p2 show ?thesis by (subst (asm) die_loop.simps) auto
      next
        case nd: False
        show ?thesis
        proof (cases "tok_type (current_token p2) = PLUS")
          case True
          with "1.prems"(1) op a int b nd obtain v p3
            where c: "eat_clause PLUS p2 = Inr (v, p3)" and d: "die_loop p3 (m + v) = Inr (m', p')"
            by (subst (asm) die_loop.simps) (auto split: sum.splits)
          from "1.IH"(1) [OF op a refl _ b refl _ True c refl d] int nd eat_clause_progress [OF c] p2
          show ?thesis by auto
        next
          case False
          with "1.prems"(1) op a int b nd obtain v p3
            where c: "eat_clause MINUS p2 = Inr (v, p3)" and d: "die_loop p3 (m - v) = Inr (m', p')"
            by (subst (asm) die_loop.simps) (auto split: sum.splits)
          from "1.IH"(2) [OF op a refl _ b refl _ False c refl d] int nd eat_clause_progress [OF c] p2
          show ?thesis by auto
        qed
      qed
    qed
  qed
qed

text \<open>\<^verbatim>\<open>Parser.die\<close>: the optional count, the delimiter, the sides, then the modifier loop.\<close>

definition Parser_die :: "Parser \<Rightarrow> error + (Die \<times> Parser)" where
  "Parser_die p =
     (case (if tok_type (current_token p) = INTEGER then
              (let token = current_token p in
               case eat INTEGER p of
                 Inl e \<Rightarrow> Inl e
               | Inr p1 \<Rightarrow>
                   (case tok_value token of
                      IntVal v \<Rightarrow> Inr (v, p1)
                    | _ \<Rightarrow> Inl AssertionFailed))
            else Inr (1, p)) of
        Inl e \<Rightarrow> Inl e
      | Inr (n, p1) \<Rightarrow>
          (case eat DELIM p1 of
             Inl e \<Rightarrow> Inl e
           | Inr p2 \<Rightarrow>
               (let token = current_token p2 in
                case eat INTEGER p2 of
                  Inl e \<Rightarrow> Inl e
                | Inr p3 \<Rightarrow>
                    (case tok_value token of
                       IntVal s \<Rightarrow>
                         (case die_loop p3 0 of
                            Inl e \<Rightarrow> Inl e
                          | Inr (m, p4) \<Rightarrow>
                              Inr (\<lparr>sides = s, num_dice = n, modifier = m\<rparr>, p4))
                     | _ \<Rightarrow> Inl AssertionFailed))))"

lemma Parser_die_progress:
  assumes "Parser_die p = Inr (d, p')"
  shows "remaining (lexer p') < remaining (lexer p)" and "cc_ok (lexer p')"
proof -
  from assms have "\<exists>p1 p2 p3 m. (p1 = p \<or> eat INTEGER p = Inr p1) \<and> eat DELIM p1 = Inr p2
      \<and> eat INTEGER p2 = Inr p3 \<and> die_loop p3 0 = Inr (m, p')"
    by (auto simp: Parser_die_def Let_def split: sum.splits tok_value.splits if_splits; blast)
  then obtain p1 p2 p3 m where
    p1: "p1 = p \<or> eat INTEGER p = Inr p1" and p2: "eat DELIM p1 = Inr p2"
    and p3: "eat INTEGER p2 = Inr p3" and p4: "die_loop p3 0 = Inr (m, p')"
    by blast
  from p1 have 1: "remaining (lexer p1) \<le> remaining (lexer p)"
    by (auto dest: eat_remaining)
  from eat_type [OF p3] have "tok_type (current_token p2) \<noteq> EOF" by simp
  from eat_progress [OF p2 this]
  have 2: "remaining (lexer p2) < remaining (lexer p1)" "cc_ok (lexer p2)" by simp_all
  from eat_remaining [OF p3] eat_cc_ok [OF p3 2(2)]
  have 3: "remaining (lexer p3) \<le> remaining (lexer p2)" "cc_ok (lexer p3)" by simp_all
  from die_loop_remaining [OF p4 3(2)] 1 2 3
  show "remaining (lexer p') < remaining (lexer p)" "cc_ok (lexer p')" by simp_all
qed

definition add_die :: "DiceBag \<Rightarrow> Die \<Rightarrow> bool \<Rightarrow> DiceBag" where
  "add_die bag d sub = bag @ [\<lparr>die = d, subtracted = sub\<rparr>]"

function dice_loop :: "Parser \<Rightarrow> DiceBag \<Rightarrow> error + (DiceBag \<times> Parser)" where
  "dice_loop p to_return =
     (if tok_type (current_token p) = PLUS \<or> tok_type (current_token p) = MINUS then
        (if tok_type (current_token p) = PLUS then
           (case eat PLUS p of
              Inl e \<Rightarrow> Inl e
            | Inr p1 \<Rightarrow>
                (case Parser_die p1 of
                   Inl e \<Rightarrow> Inl e
                 | Inr (d, p2) \<Rightarrow> dice_loop p2 (add_die to_return d False)))
         else
           (case eat MINUS p of
              Inl e \<Rightarrow> Inl e
            | Inr p1 \<Rightarrow>
                (case Parser_die p1 of
                   Inl e \<Rightarrow> Inl e
                 | Inr (d, p2) \<Rightarrow> dice_loop p2 (add_die to_return d True))))
      else Inr (to_return, p))"
  by pat_completeness auto
termination
proof (relation "measure (\<lambda>(p, bag). remaining (lexer p))", goal_cases)
  case 1
  show ?case by simp
next
  case (2 p to_return p1 x2 d p2)
  then have a: "eat PLUS p = Inr p1" and b: "Parser_die p1 = Inr (d, p2)" by simp_all
  from eat_remaining [OF a] Parser_die_progress(1) [OF b] show ?case by simp
next
  case (3 p to_return p1 x2 d p2)
  then have a: "eat MINUS p = Inr p1" and b: "Parser_die p1 = Inr (d, p2)" by simp_all
  from eat_remaining [OF a] Parser_die_progress(1) [OF b] show ?case by simp
qed

declare dice_loop.simps [simp del]

definition Parser_dice :: "Parser \<Rightarrow> error + (DiceBag \<times> Parser)" where
  "Parser_dice p =
     (case Parser_die p of
        Inl e \<Rightarrow> Inl e
      | Inr (d, p1) \<Rightarrow> dice_loop p1 (add_die [] d False))"

definition from_str :: "string \<Rightarrow> error + DiceBag" where
  "from_str formula =
     (case Parser_init formula of
        Inl e \<Rightarrow> Inl e
      | Inr p \<Rightarrow>
          (case Parser_dice p of
             Inl e \<Rightarrow> Inl e
           | Inr (bag, p') \<Rightarrow> Inr bag))"

section \<open>Rolling\<close>

text \<open>
  \<^verbatim>\<open>random.randint(a, b)\<close> returns some integer of the closed interval from \<open>a\<close> to \<open>b\<close>
  and raises \<^verbatim>\<open>ValueError\<close> when the interval is empty. The random source is a function
  \<open>src\<close> that gives the raw value behind the \<open>i\<close>-th call; the number of calls made so
  far is the state that the rolling functions pass on. Every value of the interval is
  the outcome for some source.
\<close>

type_synonym rng = "nat \<Rightarrow> nat"

definition randint :: "int \<Rightarrow> int \<Rightarrow> rng \<Rightarrow> nat \<Rightarrow> error + (int \<times> nat)" where
  "randint a b src i =
     (if b < a then Inl (EmptyRange a b)
      else Inr (a + int (src i mod nat (b - a + 1)), Suc i))"

text \<open>\<^verbatim>\<open>Die.roll\<close>: the generator is run \<^verbatim>\<open>range(num_dice)\<close> times, then the modifier is added.\<close>

fun Die_roll_loop :: "nat \<Rightarrow> Die \<Rightarrow> int \<Rightarrow> rng \<Rightarrow> nat \<Rightarrow> error + (int \<times> nat)" where
  "Die_roll_loop 0 d acc src i = Inr (acc, i)"
| "Die_roll_loop (Suc k) d acc src i =
     (case randint 1 (sides d) src i of
        Inl e \<Rightarrow> Inl e
      | Inr (x, i') \<Rightarrow> Die_roll_loop k d (acc + x) src i')"

definition Die_roll :: "Die \<Rightarrow> rng \<Rightarrow> nat \<Rightarrow> error + (int \<times> nat)" where
  "Die_roll d src i =
     (case Die_roll_loop (nat (num_dice d)) d 0 src i of
        Inl e \<Rightarrow> Inl e
      | Inr (acc, i') \<Rightarrow> Inr (acc + modifier d, i'))"

definition DiceBagItem_roll :: "DiceBagItem \<Rightarrow> rng \<Rightarrow> nat \<Rightarrow> error + (int \<times> nat)" where
  "DiceBagItem_roll item src i =
     (let multiplier = (if subtracted item then - 1 else 1) in
      case Die_roll (die item) src i of
        Inl e \<Rightarrow> Inl e
      | Inr (r, i') \<Rightarrow> Inr (multiplier * r, i'))"

fun DiceBag_roll_loop :: "DiceBagItem list \<Rightarrow> int \<Rightarrow> rng \<Rightarrow> nat \<Rightarrow> error + (int \<times> nat)" where
  "DiceBag_roll_loop [] acc src i = Inr (acc, i)"
| "DiceBag_roll_loop (item # rest) acc src i =
     (case DiceBagItem_roll item src i of
        Inl e \<Rightarrow> Inl e
      | Inr (r, i') \<Rightarrow> DiceBag_roll_loop rest (acc + r) src i')"

definition DiceBag_roll :: "DiceBag \<Rightarrow> rng \<Rightarrow> nat \<Rightarrow> error + (int \<times> nat)" where
  "DiceBag_roll bag src i = DiceBag_roll_loop bag 0 src i"

definition roll :: "string \<Rightarrow> rng \<Rightarrow> nat \<Rightarrow> error + (int \<times> nat)" where
  "roll formula src i =
     (case from_str formula of
        Inl e \<Rightarrow> Inl e
      | Inr bag \<Rightarrow> DiceBag_roll bag src i)"

text \<open>A source that replays a given list of raw values and then yields 0.\<close>

definition replay :: "nat list \<Rightarrow> rng" where
  "replay xs i = (if i < length xs then xs ! i else 0)"

section \<open>Rendering\<close>









section \<open>Error cases\<close>

text \<open>
  Claim C7. Malformed input is rejected with the specified error kind and no dice bag is
  returned (the result is an error, not a bag): a lexer, and so a parse, made from the
  empty string fails with \<open>InvalidInput\<close>; parsing \<^verbatim>\<open>2x6\<close> fails with
  \<open>InvalidCharacter\<close> for the character \<^verbatim>\<open>x\<close> at index 1; parsing \<^verbatim>\<open>d\<close> fails with
  \<open>UnexpectedToken\<close>, expected \<open>INTEGER\<close>, actual \<open>EOF\<close>.
\<close>

theorem malformed_inputs_rejected:
  "Lexer_init [] = Inl InvalidInput
   \<and> from_str [] = Inl InvalidInput
   \<and> from_str ''2x6'' = Inl (InvalidCharacter CHR ''x'' 1)
   \<and> from_str ''d'' = Inl (UnexpectedToken INTEGER EOF)"
  by code_simp

text \<open>
  Claim C10. The parser accepts zero sides: \<^verbatim>\<open>d0\<close> parses to the one-term bag holding
  \<open>Die(sides=0, num_dice=1, modifier=0)\<close>. Rolling a die with zero sides and at least one
  die fails, whatever the random source, because the first draw asks for an integer of the
  empty interval from 1 to 0. So a formula that parses need not roll.
\<close>

theorem zero_sides_parse_then_roll_fails:
  "from_str ''d0'' = Inr [\<lparr>die = \<lparr>sides = 0, num_dice = 1, modifier = 0\<rparr>, subtracted = False\<rparr>]
   \<and> (sides d = 0 \<and> 1 \<le> num_dice d \<longrightarrow> Die_roll d src i = Inl (EmptyRange 1 0))
   \<and> roll ''d0'' src i = Inl (EmptyRange 1 0)"
proof (intro conjI impI)
  show p: "from_str ''d0'' = Inr [\<lparr>die = \<lparr>sides = 0, num_dice = 1, modifier = 0\<rparr>, subtracted = False\<rparr>]"
    by code_simp
  show "Die_roll d src i = Inl (EmptyRange 1 0)" if "sides d = 0 \<and> 1 \<le> num_dice d"
  proof -
    from that obtain k where "nat (num_dice d) = Suc k"
      by (cases "nat (num_dice d)") auto
    with that show ?thesis
      by (simp add: Die_roll_def randint_def)
  qed
  show "roll ''d0'' src i = Inl (EmptyRange 1 0)"
    by (simp add: roll_def p DiceBag_roll_def DiceBagItem_roll_def Die_roll_def randint_def)
qed

theorem zero_sides_witness:
  "sides \<lparr>sides = 0, num_dice = 3, modifier = 2\<rparr> = 0
   \<and> 1 \<le> num_dice \<lparr>sides = 0, num_dice = 3, modifier = 2\<rparr>
   \<and> Die_roll \<lparr>sides = 0, num_dice = 3, modifier = 2\<rparr> (replay [4, 1]) 0 = Inl (EmptyRange 1 0)"
  using zero_sides_parse_then_roll_fails [of "\<lparr>sides = 0, num_dice = 3, modifier = 2\<rparr>" "replay [4, 1]" 0]
  by simp

section \<open>Look-ahead\<close>

text \<open>
  What successive calls of \<^verbatim>\<open>get_next_token\<close> produce: \<open>after_calls n\<close> is the lexer after
  \<open>n\<close> calls that returned, \<open>nth_call n\<close> the outcome of the \<open>n\<close>-th call, for \<open>n\<close> from 1.
\<close>

fun after_calls :: "nat \<Rightarrow> Lexer \<Rightarrow> error + Lexer" where
  "after_calls 0 lx = Inr lx"
| "after_calls (Suc n) lx =
     (case get_next_token lx of
        Inl e \<Rightarrow> Inl e
      | Inr (t, lx') \<Rightarrow> after_calls n lx')"

definition nth_call :: "nat \<Rightarrow> Lexer \<Rightarrow> error + (Token \<times> Lexer)" where
  "nth_call n lx =
     (case after_calls (n - 1) lx of
        Inl e \<Rightarrow> Inl e
      | Inr lx' \<Rightarrow> get_next_token lx')"

lemma nth_call_Suc_Suc:
  "nth_call (Suc (Suc n)) lx =
     (case get_next_token lx of Inl e \<Rightarrow> Inl e | Inr (t, lx') \<Rightarrow> nth_call (Suc n) lx')"
  by (simp add: nth_call_def split: sum.splits)

lemma peek_loop_nth_call:
  "peek_loop (Suc n) lx tok =
     (case nth_call (Suc n) lx of Inl e \<Rightarrow> Inl e | Inr (t, lx') \<Rightarrow> Inr (Some t, lx'))"
proof (induction n arbitrary: lx tok)
  case 0
  show ?case by (simp add: nth_call_def split: sum.splits)
next
  case (Suc n)
  show ?case
  proof (cases "get_next_token lx")
    case (Inl e)
    then show ?thesis by (simp add: nth_call_Suc_Suc)
  next
    case (Inr r)
    obtain t lx' where r: "r = (t, lx')" by (cases r)
    from Inr r have "peek_loop (Suc (Suc n)) lx tok = peek_loop (Suc n) lx' (Some t)"
      by (simp del: peek_loop.simps add: peek_loop.simps(2) [of "Suc n"])
    also have "\<dots> = (case nth_call (Suc n) lx' of
        Inl e \<Rightarrow> Inl e | Inr (t, lx') \<Rightarrow> Inr (Some t, lx'))"
      by (rule Suc.IH)
    finally show ?thesis using Inr r by (simp only: nth_call_Suc_Suc sum.case prod.case)
  qed
qed

lemma after_calls_text: "after_calls n lx = Inr lx' \<Longrightarrow> lex_text lx' = lex_text lx"
proof (induction n arbitrary: lx)
  case 0
  then show ?case by simp
next
  case (Suc n)
  then show ?case by (auto split: sum.splits dest!: get_next_token_text)
qed

lemma nth_call_text: "nth_call n lx = Inr (t, lx') \<Longrightarrow> lex_text lx' = lex_text lx"
  by (auto simp: nth_call_def split: sum.splits dest!: after_calls_text get_next_token_text)

lemma peek_next_token_nth_call:
  assumes "cc_ok lx" and "1 \<le> ahead"
  shows "peek_next_token lx ahead =
     (case nth_call (nat ahead) lx of Inl e \<Rightarrow> Inl e | Inr (t, lx') \<Rightarrow> Inr (t, lx))"
proof -
  from assms(2) obtain n where n: "nat ahead = Suc n"
    by (cases "nat ahead") auto
  have restore: "set_pos lx' (pos lx) = lx" if "nth_call (Suc n) lx = Inr (t, lx')" for t lx'
    using set_pos_cong [OF nth_call_text [OF that], of "pos lx"] set_pos_same [OF assms(1)]
    by simp
  have loop: "peek_loop (nat ahead) lx None =
      (case nth_call (Suc n) lx of Inl e \<Rightarrow> Inl e | Inr (t, lx') \<Rightarrow> Inr (Some t, lx'))"
    unfolding n by (rule peek_loop_nth_call)
  show ?thesis
  proof (cases "nth_call (Suc n) lx")
    case (Inl e)
    with assms(2) loop n show ?thesis by (simp add: peek_next_token_def)
  next
    case (Inr r)
    obtain t lx' where r: "r = (t, lx')" by (cases r)
    with Inr assms(2) loop n restore [of t lx'] show ?thesis
      by (simp add: peek_next_token_def)
  qed
qed

text \<open>
  Claim C8. For every lexer state (one in which \<^verbatim>\<open>current_char\<close> agrees with the cursor,
  as in every state the class reaches) and every \<open>ahead\<close> of at least 1, \<^verbatim>\<open>peek_next_token\<close>
  returns what the \<open>ahead\<close>-th successive call of \<^verbatim>\<open>get_next_token\<close> would return, fails
  where one of these calls would fail, and when it returns the lexer is exactly as before:
  text, cursor and current character. With \<open>ahead\<close> below 1 it fails with \<open>InvalidArgument\<close>.
\<close>

theorem peek_returns_nth_token_and_restores:
  "(cc_ok lx \<and> 1 \<le> ahead \<longrightarrow>
      peek_next_token lx ahead =
        (case nth_call (nat ahead) lx of Inl e \<Rightarrow> Inl e | Inr (t, lx') \<Rightarrow> Inr (t, lx)))
   \<and> (ahead < 1 \<longrightarrow> peek_next_token lx ahead = Inl (InvalidArgument ahead))"
proof (intro conjI impI)
  assume "cc_ok lx \<and> 1 \<le> ahead"
  then show "peek_next_token lx ahead =
      (case nth_call (nat ahead) lx of Inl e \<Rightarrow> Inl e | Inr (t, lx') \<Rightarrow> Inr (t, lx))"
    by (intro peek_next_token_nth_call) simp_all
next
  assume "ahead < 1"
  then show "peek_next_token lx ahead = Inl (InvalidArgument ahead)"
    by (simp add: peek_next_token_def)
qed

theorem peek_witness:
  "cc_ok \<lparr>lex_text = ''2d6 +5'', pos = 1, current_char = Some CHR ''d''\<rparr>
   \<and> (1::int) \<le> 3
   \<and> nth_call 3 \<lparr>lex_text = ''2d6 +5'', pos = 1, current_char = Some CHR ''d''\<rparr> =
       Inr (Token PLUS (StrVal ''+''), \<lparr>lex_text = ''2d6 +5'', pos = 5, current_char = Some CHR ''5''\<rparr>)
   \<and> peek_next_token \<lparr>lex_text = ''2d6 +5'', pos = 1, current_char = Some CHR ''d''\<rparr> 3 =
       Inr (Token PLUS (StrVal ''+''), \<lparr>lex_text = ''2d6 +5'', pos = 1, current_char = Some CHR ''d''\<rparr>)
   \<and> (0::int) < 1
   \<and> peek_next_token \<lparr>lex_text = ''2d6 +5'', pos = 1, current_char = Some CHR ''d''\<rparr> 0 =
       Inl (InvalidArgument 0)"
proof -
  let ?lx = "\<lparr>lex_text = ''2d6 +5'', pos = 1, current_char = Some CHR ''d''\<rparr>"
  have ok: "cc_ok ?lx" by code_simp
  have n: "nth_call 3 ?lx =
      Inr (Token PLUS (StrVal ''+''), \<lparr>lex_text = ''2d6 +5'', pos = 5, current_char = Some CHR ''5''\<rparr>)"
    by code_simp
  have "nat 3 = 3" by simp
  with peek_returns_nth_token_and_restores [of ?lx 3] peek_returns_nth_token_and_restores [of ?lx 0]
    ok n show ?thesis by simp
qed

section \<open>The modifier loop, token by token\<close>

lemma Parser_peek_one:
  assumes "cc_ok (lexer p)"
  shows "Parser_peek_next_token p 1 =
     (case get_next_token (lexer p) of Inl e \<Rightarrow> Inl e | Inr (t, lx') \<Rightarrow> Inr (t, p))"
proof -
  have "nth_call (Suc 0) (lexer p) = get_next_token (lexer p)"
    by (simp add: nth_call_def)
  with peek_next_token_nth_call [OF assms, of 1] show ?thesis
    by (simp add: Parser_peek_next_token_def split: sum.splits)
qed

lemma Parser_peek_two:
  assumes "cc_ok (lexer p)"
  shows "Parser_peek_next_token p 2 =
     (case get_next_token (lexer p) of
        Inl e \<Rightarrow> Inl e
      | Inr (t1, lx1) \<Rightarrow>
          (case get_next_token lx1 of Inl e \<Rightarrow> Inl e | Inr (t2, lx2) \<Rightarrow> Inr (t2, p)))"
proof -
  have "nat 2 = Suc (Suc 0)" by simp
  with peek_next_token_nth_call [OF assms, of 2] show ?thesis
    by (simp add: Parser_peek_next_token_def nth_call_def split: sum.splits)
qed

lemma eat_clause_tokens:
  assumes "tok_type (current_token p) = k"
    and "get_next_token (lexer p) = Inr (Token INTEGER (IntVal v), lx1)"
    and "get_next_token lx1 = Inr (t2, lx2)"
  shows "eat_clause k p = Inr (v, p\<lparr>lexer := lx2, current_token := t2\<rparr>)"
  using assms by (simp add: eat_clause_def eat_def)

lemma die_loop_not_operator:
  "tok_type (current_token p) \<noteq> PLUS \<Longrightarrow> tok_type (current_token p) \<noteq> MINUS \<Longrightarrow>
   die_loop p m = Inr (m, p)"
  by (subst die_loop.simps) simp

lemma die_loop_not_integer:
  assumes "cc_ok (lexer p)"
    and "get_next_token (lexer p) = Inr (t1, lx1)" and "tok_type t1 \<noteq> INTEGER"
  shows "die_loop p m = Inr (m, p)"
  using assms by (subst die_loop.simps) (simp add: Parser_peek_one)

lemma die_loop_new_die:
  assumes "cc_ok (lexer p)"
    and "get_next_token (lexer p) = Inr (t1, lx1)"
    and "get_next_token lx1 = Inr (t2, lx2)" and "tok_type t2 = DELIM"
  shows "die_loop p m = Inr (m, p)"
  using assms by (subst die_loop.simps) (simp add: Parser_peek_one Parser_peek_two)

lemma die_loop_modifier:
  assumes "cc_ok (lexer p)"
    and "tok_type (current_token p) = PLUS \<or> tok_type (current_token p) = MINUS"
    and "get_next_token (lexer p) = Inr (Token INTEGER (IntVal v), lx1)"
    and "get_next_token lx1 = Inr (t2, lx2)" and "tok_type t2 \<noteq> DELIM"
  shows "die_loop p m =
     die_loop (p\<lparr>lexer := lx2, current_token := t2\<rparr>)
       (if tok_type (current_token p) = PLUS then m + v else m - v)"
proof (cases "tok_type (current_token p) = PLUS")
  case True
  from eat_clause_tokens [OF True assms(3,4)] True assms show ?thesis
    by (subst die_loop.simps) (simp add: Parser_peek_one Parser_peek_two)
next
  case False
  with assms(2) have m: "tok_type (current_token p) = MINUS" by simp
  from eat_clause_tokens [OF m assms(3,4)] m assms show ?thesis
    by (subst die_loop.simps) (simp add: Parser_peek_one Parser_peek_two)
qed

lemma dice_loop_operator:
  assumes "tok_type (current_token p) = PLUS \<or> tok_type (current_token p) = MINUS"
    and "get_next_token (lexer p) = Inr (t1, lx1)"
  shows "dice_loop p bag =
     (case Parser_die (p\<lparr>lexer := lx1, current_token := t1\<rparr>) of
        Inl e \<Rightarrow> Inl e
      | Inr (d, p') \<Rightarrow> dice_loop p' (add_die bag d (tok_type (current_token p) = MINUS)))"
  using assms by (subst dice_loop.simps) (auto simp: eat_def split: sum.splits)

lemma dice_loop_not_operator:
  "tok_type (current_token p) \<noteq> PLUS \<Longrightarrow> tok_type (current_token p) \<noteq> MINUS \<Longrightarrow>
   dice_loop p bag = Inr (bag, p)"
  by (subst dice_loop.simps) simp

lemma Parser_die_num_dice:
  assumes "current_token p = Token INTEGER (IntVal v)" and "Parser_die p = Inr (d, p')"
  shows "num_dice d = v"
  using assms
  by (auto simp: Parser_die_def Let_def split: sum.splits tok_value.splits)

text \<open>
  Claim C1. Where the current token is a Plus or a Minus and the token after it is an
  Integer \<open>v\<close>, the token \<open>t2\<close> after that Integer decides. If \<open>t2\<close> is not a Delim, the loop
  of \<^verbatim>\<open>Parser.die\<close> eats operator and integer, adds \<open>v\<close> to (Plus) or subtracts it from (Minus)
  the modifier of the die being parsed, and goes on from \<open>t2\<close>. If \<open>t2\<close> is a Delim, the loop
  ends with modifier and parser unchanged, and the loop of \<^verbatim>\<open>Parser.dice\<close> takes the operator
  as the start of a new term, whose die has \<open>v\<close> as its number of dice and is subtracted
  exactly for a Minus. So \<^verbatim>\<open>2d6+5d4\<close> is two added terms \<open>2d6\<close> and \<open>5d4\<close> without
  modifiers, and \<^verbatim>\<open>2d6+5+1d4\<close> is \<open>2d6+5\<close> followed by an added \<open>1d4\<close>.
\<close>

theorem modifier_or_new_die:
  "(cc_ok (lexer p)
    \<and> (tok_type (current_token p) = PLUS \<or> tok_type (current_token p) = MINUS)
    \<and> get_next_token (lexer p) = Inr (Token INTEGER (IntVal v), lx1)
    \<and> get_next_token lx1 = Inr (t2, lx2)
    \<longrightarrow>
      (tok_type t2 \<noteq> DELIM \<longrightarrow>
         die_loop p m =
           die_loop (p\<lparr>lexer := lx2, current_token := t2\<rparr>)
             (if tok_type (current_token p) = PLUS then m + v else m - v))
      \<and> (tok_type t2 = DELIM \<longrightarrow>
           die_loop p m = Inr (m, p)
           \<and> dice_loop p bag =
               (case Parser_die (p\<lparr>lexer := lx1, current_token := Token INTEGER (IntVal v)\<rparr>) of
                  Inl e \<Rightarrow> Inl e
                | Inr (d, p') \<Rightarrow>
                    dice_loop p' (add_die bag d (tok_type (current_token p) = MINUS)))
           \<and> (\<forall>d p'. Parser_die (p\<lparr>lexer := lx1, current_token := Token INTEGER (IntVal v)\<rparr>)
                         = Inr (d, p') \<longrightarrow> num_dice d = v)))
   \<and> from_str ''2d6+5d4'' =
       Inr [\<lparr>die = \<lparr>sides = 6, num_dice = 2, modifier = 0\<rparr>, subtracted = False\<rparr>,
            \<lparr>die = \<lparr>sides = 4, num_dice = 5, modifier = 0\<rparr>, subtracted = False\<rparr>]
   \<and> from_str ''2d6+5+1d4'' =
       Inr [\<lparr>die = \<lparr>sides = 6, num_dice = 2, modifier = 5\<rparr>, subtracted = False\<rparr>,
            \<lparr>die = \<lparr>sides = 4, num_dice = 1, modifier = 0\<rparr>, subtracted = False\<rparr>]"
proof (intro conjI impI allI; (elim conjE)?)
  assume h: "cc_ok (lexer p)"
    "tok_type (current_token p) = PLUS \<or> tok_type (current_token p) = MINUS"
    "get_next_token (lexer p) = Inr (Token INTEGER (IntVal v), lx1)"
    "get_next_token lx1 = Inr (t2, lx2)"
  {
    assume "tok_type t2 \<noteq> DELIM"
    with h show "die_loop p m =
        die_loop (p\<lparr>lexer := lx2, current_token := t2\<rparr>)
          (if tok_type (current_token p) = PLUS then m + v else m - v)"
      by (rule die_loop_modifier)
  }
  {
    assume "tok_type t2 = DELIM"
    with h(1,3,4) show "die_loop p m = Inr (m, p)"
      by (rule die_loop_new_die)
  }
  from h(2,3) show "dice_loop p bag =
      (case Parser_die (p\<lparr>lexer := lx1, current_token := Token INTEGER (IntVal v)\<rparr>) of
         Inl e \<Rightarrow> Inl e
       | Inr (d, p') \<Rightarrow> dice_loop p' (add_die bag d (tok_type (current_token p) = MINUS)))"
    by (rule dice_loop_operator)
  {
    fix d p'
    assume "Parser_die (p\<lparr>lexer := lx1, current_token := Token INTEGER (IntVal v)\<rparr>) = Inr (d, p')"
    then show "num_dice d = v"
      by (intro Parser_die_num_dice [where p = "p\<lparr>lexer := lx1, current_token := Token INTEGER (IntVal v)\<rparr>"]) simp_all
  }
next
  show "from_str ''2d6+5d4'' =
       Inr [\<lparr>die = \<lparr>sides = 6, num_dice = 2, modifier = 0\<rparr>, subtracted = False\<rparr>,
            \<lparr>die = \<lparr>sides = 4, num_dice = 5, modifier = 0\<rparr>, subtracted = False\<rparr>]"
    by code_simp
next
  show "from_str ''2d6+5+1d4'' =
       Inr [\<lparr>die = \<lparr>sides = 6, num_dice = 2, modifier = 5\<rparr>, subtracted = False\<rparr>,
            \<lparr>die = \<lparr>sides = 4, num_dice = 1, modifier = 0\<rparr>, subtracted = False\<rparr>]"
    by code_simp
qed


theorem modifier_or_new_die_witness:
  "cc_ok \<lparr>lex_text = ''2d6+5+1d4'', pos = 4, current_char = Some CHR ''5''\<rparr>
   \<and> get_next_token \<lparr>lex_text = ''2d6+5+1d4'', pos = 4, current_char = Some CHR ''5''\<rparr> =
       Inr (Token INTEGER (IntVal 5), \<lparr>lex_text = ''2d6+5+1d4'', pos = 5, current_char = Some CHR ''+''\<rparr>)
   \<and> get_next_token \<lparr>lex_text = ''2d6+5+1d4'', pos = 5, current_char = Some CHR ''+''\<rparr> =
       Inr (Token PLUS (StrVal ''+''), \<lparr>lex_text = ''2d6+5+1d4'', pos = 6, current_char = Some CHR ''1''\<rparr>)
   \<and> die_loop \<lparr>lexer = \<lparr>lex_text = ''2d6+5+1d4'', pos = 4, current_char = Some CHR ''5''\<rparr>,
                 current_token = Token PLUS (StrVal ''+'')\<rparr> 0 =
       Inr (5, \<lparr>lexer = \<lparr>lex_text = ''2d6+5+1d4'', pos = 6, current_char = Some CHR ''1''\<rparr>,
                current_token = Token PLUS (StrVal ''+'')\<rparr>)
   \<and> cc_ok \<lparr>lex_text = ''2d6-5d4'', pos = 4, current_char = Some CHR ''5''\<rparr>
   \<and> get_next_token \<lparr>lex_text = ''2d6-5d4'', pos = 4, current_char = Some CHR ''5''\<rparr> =
       Inr (Token INTEGER (IntVal 5), \<lparr>lex_text = ''2d6-5d4'', pos = 5, current_char = Some CHR ''d''\<rparr>)
   \<and> get_next_token \<lparr>lex_text = ''2d6-5d4'', pos = 5, current_char = Some CHR ''d''\<rparr> =
       Inr (Token DELIM (StrVal ''d''), \<lparr>lex_text = ''2d6-5d4'', pos = 6, current_char = Some CHR ''4''\<rparr>)
   \<and> die_loop \<lparr>lexer = \<lparr>lex_text = ''2d6-5d4'', pos = 4, current_char = Some CHR ''5''\<rparr>,
                 current_token = Token MINUS (StrVal ''-'')\<rparr> 0 =
       Inr (0, \<lparr>lexer = \<lparr>lex_text = ''2d6-5d4'', pos = 4, current_char = Some CHR ''5''\<rparr>,
                current_token = Token MINUS (StrVal ''-'')\<rparr>)
   \<and> dice_loop \<lparr>lexer = \<lparr>lex_text = ''2d6-5d4'', pos = 4, current_char = Some CHR ''5''\<rparr>,
                  current_token = Token MINUS (StrVal ''-'')\<rparr> [] =
       Inr ([\<lparr>die = \<lparr>sides = 4, num_dice = 5, modifier = 0\<rparr>, subtracted = True\<rparr>],
            \<lparr>lexer = \<lparr>lex_text = ''2d6-5d4'', pos = 7, current_char = None\<rparr>,
             current_token = Token EOF NoVal\<rparr>)"
proof -
  let ?a = "\<lparr>lex_text = ''2d6+5+1d4'', pos = 4, current_char = Some CHR ''5''\<rparr>"
  let ?a1 = "\<lparr>lex_text = ''2d6+5+1d4'', pos = 5, current_char = Some CHR ''+''\<rparr>"
  let ?a2 = "\<lparr>lex_text = ''2d6+5+1d4'', pos = 6, current_char = Some CHR ''1''\<rparr>"
  let ?p = "\<lparr>lexer = ?a, current_token = Token PLUS (StrVal ''+'')\<rparr>"
  let ?b = "\<lparr>lex_text = ''2d6-5d4'', pos = 4, current_char = Some CHR ''5''\<rparr>"
  let ?b1 = "\<lparr>lex_text = ''2d6-5d4'', pos = 5, current_char = Some CHR ''d''\<rparr>"
  let ?b2 = "\<lparr>lex_text = ''2d6-5d4'', pos = 6, current_char = Some CHR ''4''\<rparr>"
  let ?q = "\<lparr>lexer = ?b, current_token = Token MINUS (StrVal ''-'')\<rparr>"
  have a: "cc_ok ?a" "get_next_token ?a = Inr (Token INTEGER (IntVal 5), ?a1)"
    "get_next_token ?a1 = Inr (Token PLUS (StrVal ''+''), ?a2)"
    by code_simp+
  have b: "cc_ok ?b" "get_next_token ?b = Inr (Token INTEGER (IntVal 5), ?b1)"
    "get_next_token ?b1 = Inr (Token DELIM (StrVal ''d''), ?b2)"
    by code_simp+
  have rest: "die_loop \<lparr>lexer = ?a2, current_token = Token PLUS (StrVal ''+'')\<rparr> 5 =
      Inr (5, \<lparr>lexer = ?a2, current_token = Token PLUS (StrVal ''+'')\<rparr>)"
    by code_simp
  let ?e = "\<lparr>lexer = \<lparr>lex_text = ''2d6-5d4'', pos = 7, current_char = None\<rparr>,
             current_token = Token EOF NoVal\<rparr>"
  have new: "Parser_die \<lparr>lexer = ?b1, current_token = Token INTEGER (IntVal 5)\<rparr> =
      Inr (\<lparr>sides = 4, num_dice = 5, modifier = 0\<rparr>, ?e)"
    "dice_loop ?e (add_die [] \<lparr>sides = 4, num_dice = 5, modifier = 0\<rparr> True) =
      Inr ([\<lparr>die = \<lparr>sides = 4, num_dice = 5, modifier = 0\<rparr>, subtracted = True\<rparr>], ?e)"
    by code_simp+
  from modifier_or_new_die [of ?p 5 ?a1 "Token PLUS (StrVal ''+'')" ?a2 0] a rest
  have 1: "die_loop ?p 0 = Inr (5, \<lparr>lexer = ?a2, current_token = Token PLUS (StrVal ''+'')\<rparr>)"
    by simp
  from modifier_or_new_die [of ?q 5 ?b1 "Token DELIM (StrVal ''d'')" ?b2 0 "[]"] b new
  have 2: "die_loop ?q 0 = Inr (0, ?q)"
    "dice_loop ?q [] =
      Inr ([\<lparr>die = \<lparr>sides = 4, num_dice = 5, modifier = 0\<rparr>, subtracted = True\<rparr>],
           \<lparr>lexer = \<lparr>lex_text = ''2d6-5d4'', pos = 7, current_char = None\<rparr>,
            current_token = Token EOF NoVal\<rparr>)"
    by simp_all
  from a b 1 2 show ?thesis by simp
qed

section \<open>Runs of modifier clauses\<close>

lemma get_next_token_INTEGER:
  "get_next_token lx = Inr (t, lx') \<Longrightarrow> tok_type t = INTEGER \<Longrightarrow> \<exists>v. t = Token INTEGER (IntVal v)"
  by (auto simp: get_next_token_def Let_def split: option.splits if_splits sum.splits)

text \<open>
  A modifier clause is an operator followed by an Integer that is not followed by a Delim.
  \<open>clause_run p cs p'\<close>: from the parser state \<open>p\<close>, the clauses \<open>cs\<close> (operator and
  integer, in order) follow one another and lead to the state \<open>p'\<close>. \<open>run_ends p'\<close>: no further
  clause starts at \<open>p'\<close>, so the run is maximal. \<open>signed\<close> is a clause's contribution.
\<close>

inductive clause_run :: "Parser \<Rightarrow> (TokenType \<times> int) list \<Rightarrow> Parser \<Rightarrow> bool" where
  no_clause: "clause_run p [] p"
| clause:
    "tok_type (current_token p) = PLUS \<or> tok_type (current_token p) = MINUS \<Longrightarrow>
     get_next_token (lexer p) = Inr (Token INTEGER (IntVal v), lx1) \<Longrightarrow>
     get_next_token lx1 = Inr (t2, lx2) \<Longrightarrow>
     tok_type t2 \<noteq> DELIM \<Longrightarrow>
     clause_run (p\<lparr>lexer := lx2, current_token := t2\<rparr>) cs p' \<Longrightarrow>
     clause_run p ((tok_type (current_token p), v) # cs) p'"

definition run_ends :: "Parser \<Rightarrow> bool" where
  "run_ends p =
     ((tok_type (current_token p) \<noteq> PLUS \<and> tok_type (current_token p) \<noteq> MINUS)
      \<or> (case get_next_token (lexer p) of
            Inl e \<Rightarrow> False
          | Inr (t1, lx1) \<Rightarrow>
              tok_type t1 \<noteq> INTEGER
              \<or> (case get_next_token lx1 of
                    Inl e \<Rightarrow> False
                  | Inr (t2, lx2) \<Rightarrow> tok_type t2 = DELIM)))"

definition signed :: "TokenType \<times> int \<Rightarrow> int" where
  "signed c = (if fst c = PLUS then snd c else - snd c)"

lemma run_ends_die_loop:
  assumes "cc_ok (lexer p)" and "run_ends p"
  shows "die_loop p m = Inr (m, p)"
proof (cases "tok_type (current_token p) \<noteq> PLUS \<and> tok_type (current_token p) \<noteq> MINUS")
  case True
  then show ?thesis by (simp add: die_loop_not_operator)
next
  case False
  with assms(2) have c: "case get_next_token (lexer p) of
      Inl e \<Rightarrow> False
    | Inr (t1, lx1) \<Rightarrow>
        tok_type t1 \<noteq> INTEGER
        \<or> (case get_next_token lx1 of Inl e \<Rightarrow> False | Inr (t2, lx2) \<Rightarrow> tok_type t2 = DELIM)"
    by (simp add: run_ends_def)
  then obtain t1 lx1 where t1: "get_next_token (lexer p) = Inr (t1, lx1)"
    by (cases "get_next_token (lexer p)") auto
  with c have "tok_type t1 \<noteq> INTEGER
      \<or> (case get_next_token lx1 of Inl e \<Rightarrow> False | Inr (t2, lx2) \<Rightarrow> tok_type t2 = DELIM)"
    by simp
  then show ?thesis
  proof
    assume "tok_type t1 \<noteq> INTEGER"
    with assms(1) t1 show ?thesis by (rule die_loop_not_integer)
  next
    assume d: "case get_next_token lx1 of Inl e \<Rightarrow> False | Inr (t2, lx2) \<Rightarrow> tok_type t2 = DELIM"
    then obtain t2 lx2 where t2: "get_next_token lx1 = Inr (t2, lx2)"
      by (cases "get_next_token lx1") auto
    with d have "tok_type t2 = DELIM" by simp
    with assms(1) t1 t2 show ?thesis by (rule die_loop_new_die)
  qed
qed

lemma signed_pair [simp]: "signed (k, v) = (if k = PLUS then v else - v)"
  by (simp add: signed_def)

lemma clause_run_die_loop:
  assumes "clause_run p cs p'" and "cc_ok (lexer p)" and "run_ends p'"
  shows "die_loop p m = Inr (m + sum_list (map signed cs), p')"
  using assms
proof (induction arbitrary: m rule: clause_run.induct)
  case (no_clause p)
  then show ?case by (simp add: run_ends_die_loop)
next
  case (clause p v lx1 t2 lx2 cs p')
  let ?p2 = "p\<lparr>lexer := lx2, current_token := t2\<rparr>"
  let ?m = "if tok_type (current_token p) = PLUS then m + v else m - v"
  from clause.hyps(2,3) clause.prems(1) have "cc_ok (lexer ?p2)"
    by (auto dest: get_next_token_cc_ok)
  from clause.IH [OF this clause.prems(2), of ?m]
  have "die_loop ?p2 ?m = Inr (?m + sum_list (map signed cs), p')" .
  moreover from clause.prems(1) clause.hyps(1-4)
  have "die_loop p m = die_loop ?p2 ?m" by (rule die_loop_modifier)
  ultimately show ?case by simp
qed

lemma die_loop_clause_run:
  assumes "die_loop p m = Inr (m', p')" and "cc_ok (lexer p)"
  shows "\<exists>cs. clause_run p cs p' \<and> run_ends p' \<and> m' = m + sum_list (map signed cs)"
  using assms
proof (induction "remaining (lexer p)" arbitrary: p m rule: less_induct)
  case less
  show ?case
  proof (cases "run_ends p")
    case True
    with less.prems run_ends_die_loop [OF less.prems(2) True, of m] no_clause [of p]
    show ?thesis by (intro exI [of _ "[]"]) auto
  next
    case False
    then have op: "tok_type (current_token p) = PLUS \<or> tok_type (current_token p) = MINUS"
      by (auto simp: run_ends_def)
    from less.prems op obtain t1 lx1 where t1: "get_next_token (lexer p) = Inr (t1, lx1)"
      by (subst (asm) die_loop.simps) (auto simp: Parser_peek_one split: sum.splits)
    with False op have int: "tok_type t1 = INTEGER" by (auto simp: run_ends_def)
    from get_next_token_INTEGER [OF t1 int] obtain v where v: "t1 = Token INTEGER (IntVal v)" ..
    from less.prems op t1 int obtain t2 lx2 where t2: "get_next_token lx1 = Inr (t2, lx2)"
      by (subst (asm) die_loop.simps)
        (auto simp: Parser_peek_one Parser_peek_two split: sum.splits)
    with False op t1 int have nd: "tok_type t2 \<noteq> DELIM" by (auto simp: run_ends_def)
    let ?p2 = "p\<lparr>lexer := lx2, current_token := t2\<rparr>"
    let ?m = "if tok_type (current_token p) = PLUS then m + v else m - v"
    from die_loop_modifier [OF less.prems(2) op t1 [unfolded v] t2 nd, of m] less.prems(1)
    have run: "die_loop ?p2 ?m = Inr (m', p')" by simp
    from get_next_token_progress(1) [OF t1] int get_next_token_remaining [OF t2]
    have smaller: "remaining (lexer ?p2) < remaining (lexer p)" by simp
    from t1 t2 less.prems(2) have ok: "cc_ok (lexer ?p2)"
      by (auto dest: get_next_token_cc_ok)
    from less.hyps [OF smaller run ok] obtain cs
      where cs: "clause_run ?p2 cs p'" "run_ends p'" "m' = ?m + sum_list (map signed cs)"
      by blast
    from clause [OF op t1 [unfolded v] t2 nd cs(1)] cs(2,3)
    show ?thesis
      by (intro exI [of _ "(tok_type (current_token p), v) # cs"]) auto
  qed
qed

text \<open>
  Claim C2. In every parser state the loop of \<^verbatim>\<open>Parser.die\<close> returns exactly when a maximal
  run of modifier clauses starts there, and it returns the modifier it was entered with
  plus the sum of the run's clauses, a Plus clause counting as its integer and a Minus
  clause as the negated integer, in the state that the run leads to. So
  \<^verbatim>\<open>2d10-1+7-2d4+1-1+2\<close> is an added \<open>2d10+6\<close> and a subtracted \<open>2d4+2\<close>.
\<close>

theorem modifier_run_accumulates:
  "(cc_ok (lexer p) \<longrightarrow>
      (die_loop p m = Inr (m', p')) =
      (\<exists>cs. clause_run p cs p' \<and> run_ends p' \<and> m' = m + sum_list (map signed cs)))
   \<and> from_str ''2d10-1+7-2d4+1-1+2'' =
       Inr [\<lparr>die = \<lparr>sides = 10, num_dice = 2, modifier = 6\<rparr>, subtracted = False\<rparr>,
            \<lparr>die = \<lparr>sides = 4, num_dice = 2, modifier = 2\<rparr>, subtracted = True\<rparr>]"
proof (intro conjI impI)
  assume ok: "cc_ok (lexer p)"
  show "(die_loop p m = Inr (m', p')) =
      (\<exists>cs. clause_run p cs p' \<and> run_ends p' \<and> m' = m + sum_list (map signed cs))"
  proof
    assume "die_loop p m = Inr (m', p')"
    then show "\<exists>cs. clause_run p cs p' \<and> run_ends p' \<and> m' = m + sum_list (map signed cs)"
      using ok by (rule die_loop_clause_run)
  next
    assume "\<exists>cs. clause_run p cs p' \<and> run_ends p' \<and> m' = m + sum_list (map signed cs)"
    then obtain cs where "clause_run p cs p'" "run_ends p'" "m' = m + sum_list (map signed cs)"
      by blast
    with clause_run_die_loop [OF this(1) ok this(2), of m] show "die_loop p m = Inr (m', p')"
      by simp
  qed
next
  show "from_str ''2d10-1+7-2d4+1-1+2'' =
       Inr [\<lparr>die = \<lparr>sides = 10, num_dice = 2, modifier = 6\<rparr>, subtracted = False\<rparr>,
            \<lparr>die = \<lparr>sides = 4, num_dice = 2, modifier = 2\<rparr>, subtracted = True\<rparr>]"
    by code_simp
qed

theorem modifier_run_witness:
  "cc_ok \<lparr>lex_text = ''d20+2+4-1'', pos = 4, current_char = Some CHR ''2''\<rparr>
   \<and> die_loop \<lparr>lexer = \<lparr>lex_text = ''d20+2+4-1'', pos = 4, current_char = Some CHR ''2''\<rparr>,
                 current_token = Token PLUS (StrVal ''+'')\<rparr> 0 =
       Inr (5, \<lparr>lexer = \<lparr>lex_text = ''d20+2+4-1'', pos = 9, current_char = None\<rparr>,
                current_token = Token EOF NoVal\<rparr>)
   \<and> (\<exists>cs. clause_run \<lparr>lexer = \<lparr>lex_text = ''d20+2+4-1'', pos = 4, current_char = Some CHR ''2''\<rparr>,
                         current_token = Token PLUS (StrVal ''+'')\<rparr> cs
               \<lparr>lexer = \<lparr>lex_text = ''d20+2+4-1'', pos = 9, current_char = None\<rparr>,
                current_token = Token EOF NoVal\<rparr>
            \<and> run_ends \<lparr>lexer = \<lparr>lex_text = ''d20+2+4-1'', pos = 9, current_char = None\<rparr>,
                         current_token = Token EOF NoVal\<rparr>
            \<and> (5::int) = 0 + sum_list (map signed cs))"
proof -
  let ?p = "\<lparr>lexer = \<lparr>lex_text = ''d20+2+4-1'', pos = 4, current_char = Some CHR ''2''\<rparr>,
             current_token = Token PLUS (StrVal ''+'')\<rparr>"
  let ?e = "\<lparr>lexer = \<lparr>lex_text = ''d20+2+4-1'', pos = 9, current_char = None\<rparr>,
             current_token = Token EOF NoVal\<rparr>"
  have ok: "cc_ok (lexer ?p)" by code_simp
  have run: "die_loop ?p 0 = Inr (5, ?e)" by code_simp
  from modifier_run_accumulates [of ?p 0 5 ?e] ok run
  have "\<exists>cs. clause_run ?p cs ?e \<and> run_ends ?e \<and> (5::int) = 0 + sum_list (map signed cs)"
    by simp
  with ok run show ?thesis by simp
qed

section \<open>What a roll is\<close>

text \<open>
  \<open>draw s src k\<close> is the outcome of call number \<open>k\<close> of \<^verbatim>\<open>randint(1, s)\<close> for \<open>s\<close> of at least 1,
  and \<open>draws d src i\<close> are the outcomes of the calls that \<^verbatim>\<open>Die.roll\<close> makes when \<open>i\<close> calls
  were made before: one call for each of the \<open>num_dice\<close> dice, each with a call number of
  its own. \<open>signed_rolls\<close> rolls the dice of the terms of a bag one after the other, every
  term after the calls of the terms before it, and gives each roll its sign.
\<close>

definition draw :: "int \<Rightarrow> rng \<Rightarrow> nat \<Rightarrow> int" where
  "draw s src k = 1 + int (src k mod nat s)"

definition draws :: "Die \<Rightarrow> rng \<Rightarrow> nat \<Rightarrow> int list" where
  "draws d src i = map (draw (sides d) src) [i ..< i + nat (num_dice d)]"

fun signed_rolls :: "DiceBagItem list \<Rightarrow> rng \<Rightarrow> nat \<Rightarrow> error + (int list \<times> nat)" where
  "signed_rolls [] src i = Inr ([], i)"
| "signed_rolls (item # rest) src i =
     (case Die_roll (die item) src i of
        Inl e \<Rightarrow> Inl e
      | Inr (r, i') \<Rightarrow>
          (case signed_rolls rest src i' of
             Inl e \<Rightarrow> Inl e
           | Inr (rs, j) \<Rightarrow> Inr ((if subtracted item then - 1 else 1) * r # rs, j)))"

lemma randint_draw: "1 \<le> s \<Longrightarrow> randint 1 s src i = Inr (draw s src i, Suc i)"
  by (simp add: randint_def draw_def)

lemma draw_range: "1 \<le> s \<Longrightarrow> 1 \<le> draw s src k \<and> draw s src k \<le> s"
proof -
  assume s: "1 \<le> s"
  then have "src k mod nat s < nat s" by simp
  then have "int (src k mod nat s) < int (nat s)" by (simp only: of_nat_less_iff)
  with s show ?thesis by (simp add: draw_def)
qed

lemma Die_roll_loop_draws:
  "1 \<le> sides d \<Longrightarrow>
   Die_roll_loop k d acc src i =
     Inr (acc + sum_list (map (draw (sides d) src) [i ..< i + k]), i + k)"
proof (induction k arbitrary: acc i)
  case 0
  show ?case by simp
next
  case (Suc k)
  have "[i ..< i + Suc k] = i # [Suc i ..< Suc i + k]"
    by (simp add: upt_rec)
  with Suc show ?case
    by (simp add: randint_draw)
qed

lemma Die_roll_draws:
  "1 \<le> sides d \<Longrightarrow>
   Die_roll d src i = Inr (sum_list (draws d src i) + modifier d, i + nat (num_dice d))"
  by (simp add: Die_roll_def Die_roll_loop_draws draws_def)

lemma draws_onto:
  assumes "1 \<le> sides d" and "length xs = nat (num_dice d)"
    and "\<forall>x \<in> set xs. 1 \<le> x \<and> x \<le> sides d"
  shows "\<exists>src. draws d src i = xs"
proof (intro exI nth_equalityI)
  let ?src = "\<lambda>k. nat (xs ! (k - i) - 1)"
  show len: "length (draws d ?src i) = length xs"
    using assms(2) by (simp add: draws_def)
  fix j
  assume "j < length (draws d ?src i)"
  with len have j: "j < length xs" by simp
  with assms(3) have "1 \<le> xs ! j \<and> xs ! j \<le> sides d" by simp
  then have "nat (xs ! j - 1) mod nat (sides d) = nat (xs ! j - 1)" by simp
  with j assms(2) \<open>1 \<le> xs ! j \<and> xs ! j \<le> sides d\<close> show "draws d ?src i ! j = xs ! j"
    by (simp add: draws_def draw_def)
qed

lemma DiceBag_roll_loop_signed:
  "DiceBag_roll_loop bag acc src i =
     (case signed_rolls bag src i of
        Inl e \<Rightarrow> Inl e
      | Inr (rs, j) \<Rightarrow> Inr (acc + sum_list rs, j))"
proof (induction bag arbitrary: acc i)
  case Nil
  show ?case by simp
next
  case (Cons item rest)
  show ?case
    by (simp add: Cons.IH DiceBagItem_roll_def Let_def split: sum.splits)
qed

text \<open>
  Claim C6. A die with at least one side and a number of dice that is not negative rolls,
  for every random source, to the sum of \<open>num_dice\<close> draws plus its modifier; every draw is
  an integer from 1 to \<open>sides\<close>, and every list of such integers is the list of draws for
  some source. A bag rolls to the sum over its terms of the term's die roll, negated for a
  subtracted term, each term rolled on its own part of the source (and it fails where one
  of these rolls fails). A die with one side and one die rolls to 1 plus its modifier.
\<close>

theorem roll_is_sum_of_draws:
  "(1 \<le> sides d \<and> 0 \<le> num_dice d \<longrightarrow>
      Die_roll d src i = Inr (sum_list (draws d src i) + modifier d, i + nat (num_dice d))
      \<and> int (length (draws d src i)) = num_dice d
      \<and> (\<forall>x \<in> set (draws d src i). 1 \<le> x \<and> x \<le> sides d)
      \<and> (\<forall>xs. int (length xs) = num_dice d \<and> (\<forall>x \<in> set xs. 1 \<le> x \<and> x \<le> sides d)
             \<longrightarrow> (\<exists>src'. draws d src' i = xs)))
   \<and> DiceBag_roll bag src i =
       (case signed_rolls bag src i of
          Inl e \<Rightarrow> Inl e
        | Inr (rs, j) \<Rightarrow> Inr (sum_list rs, j))
   \<and> Die_roll \<lparr>sides = 1, num_dice = 1, modifier = m\<rparr> src i = Inr (1 + m, Suc i)"
proof (intro conjI impI allI ballI; (elim conjE)?)
  assume h: "1 \<le> sides d" "0 \<le> num_dice d"
  from h(1) show "Die_roll d src i =
      Inr (sum_list (draws d src i) + modifier d, i + nat (num_dice d))"
    by (rule Die_roll_draws)
  from h(2) show "int (length (draws d src i)) = num_dice d"
    by (simp add: draws_def)
  {
    fix x
    assume "x \<in> set (draws d src i)"
    with draw_range [OF h(1)] show "1 \<le> x" "x \<le> sides d"
      by (auto simp: draws_def)
  }
  {
    fix xs
    assume "int (length xs) = num_dice d" "\<forall>x \<in> set xs. 1 \<le> x \<and> x \<le> sides d"
    with h(1) show "\<exists>src'. draws d src' i = xs"
      by (intro draws_onto) auto
  }
next
  show "DiceBag_roll bag src i =
       (case signed_rolls bag src i of
          Inl e \<Rightarrow> Inl e
        | Inr (rs, j) \<Rightarrow> Inr (sum_list rs, j))"
    by (simp add: DiceBag_roll_def DiceBag_roll_loop_signed split: sum.splits)
next
  show "Die_roll \<lparr>sides = 1, num_dice = 1, modifier = m\<rparr> src i = Inr (1 + m, Suc i)"
    by (simp add: Die_roll_def randint_def)
qed

theorem roll_is_sum_of_draws_witness:
  "1 \<le> sides \<lparr>sides = 6, num_dice = 2, modifier = 3\<rparr>
   \<and> 0 \<le> num_dice \<lparr>sides = 6, num_dice = 2, modifier = 3\<rparr>
   \<and> draws \<lparr>sides = 6, num_dice = 2, modifier = 3\<rparr> (replay [4, 9]) 0 = [5, 4]
   \<and> Die_roll \<lparr>sides = 6, num_dice = 2, modifier = 3\<rparr> (replay [4, 9]) 0 = Inr (12, 2)
   \<and> (\<exists>src'. draws \<lparr>sides = 6, num_dice = 2, modifier = 3\<rparr> src' 0 = [6, 1])"
proof -
  let ?d = "\<lparr>sides = 6, num_dice = 2, modifier = 3\<rparr>"
  have d: "draws ?d (replay [4, 9]) 0 = [5, 4]" by code_simp
  from roll_is_sum_of_draws [of ?d "replay [4, 9]" 0] d
  have "Die_roll ?d (replay [4, 9]) 0 = Inr (12, 2)"
    and "\<forall>xs. int (length xs) = 2 \<and> (\<forall>x \<in> set xs. 1 \<le> x \<and> x \<le> 6)
             \<longrightarrow> (\<exists>src'. draws ?d src' 0 = xs)"
    by simp_all
  from this(1) this(2) [rule_format, of "[6, 1]"] d show ?thesis by simp
qed

section \<open>Parsed numbers are not negative\<close>

lemma digit_val_nonneg: "isdecimal c \<Longrightarrow> 0 \<le> digit_val c"
  by (simp add: isdecimal_def digit_val_def Let_def)

lemma foldl_decimal_nonneg:
  "\<forall>c \<in> set s. isdecimal c \<Longrightarrow> 0 \<le> a \<Longrightarrow>
   0 \<le> foldl (\<lambda>acc c. 10 * acc + digit_val c) a s"
proof (induction s arbitrary: a)
  case Nil
  then show ?case by simp
next
  case (Cons c s)
  from Cons.prems digit_val_nonneg [of c] have "0 \<le> 10 * a + digit_val c" by simp
  with Cons show ?case by simp
qed

lemma int_of_decimal_nonneg: "\<forall>c \<in> set s. isdecimal c \<Longrightarrow> 0 \<le> int_of_decimal s"
  by (simp add: int_of_decimal_def foldl_decimal_nonneg)

lemma integer_loop_decimal:
  "integer_loop lx r = (r', lx') \<Longrightarrow> \<forall>c \<in> set r. isdecimal c \<Longrightarrow> \<forall>c \<in> set r'. isdecimal c"
proof (induction lx r rule: integer_loop.induct)
  case (1 lx result)
  show ?case
  proof (cases "current_char lx")
    case None
    with "1.prems" show ?thesis by (subst (asm) integer_loop.simps) simp
  next
    case (Some c)
    show ?thesis
    proof (cases "isdecimal c")
      case True
      with Some "1.prems"(1) have "integer_loop (advance lx) (result @ [c]) = (r', lx')"
        by (subst (asm) integer_loop.simps) simp
      from "1.IH" [OF Some True this] True "1.prems"(2) show ?thesis by simp
    next
      case False
      with Some "1.prems" show ?thesis by (subst (asm) integer_loop.simps) simp
    qed
  qed
qed

lemma get_next_token_nonneg:
  assumes "get_next_token lx = Inr (t, lx')" and "tok_value t = IntVal v"
  shows "0 \<le> v"
proof -
  from assms obtain l r where "integer_loop l [] = (r, lx')" and v: "v = int_of_decimal r"
    by (auto simp: get_next_token_def Let_def integer_def
        split: option.splits if_splits sum.splits prod.splits)
  from integer_loop_decimal [OF this(1)] v show ?thesis
    by (simp add: int_of_decimal_nonneg)
qed

definition tok_nonneg :: "Parser \<Rightarrow> bool" where
  "tok_nonneg p = (case tok_value (current_token p) of IntVal v \<Rightarrow> 0 \<le> v | _ \<Rightarrow> True)"

lemma tok_nonneg_token:
  "get_next_token lx = Inr (t, lx') \<Longrightarrow> tok_nonneg (p\<lparr>lexer := l, current_token := t\<rparr>)"
  by (auto simp: tok_nonneg_def split: tok_value.splits dest: get_next_token_nonneg)

lemma eat_nonneg: "eat k p = Inr p' \<Longrightarrow> tok_nonneg p'"
  by (auto simp: eat_def split: if_splits sum.splits intro: tok_nonneg_token)

lemma Parser_init_ok:
  assumes "Parser_init formula = Inr p"
  shows "tok_nonneg p" and "cc_ok (lexer p)"
proof -
  from assms obtain lx t lx' where lx: "Lexer_init formula = Inr lx"
    and t: "get_next_token lx = Inr (t, lx')" and p: "p = \<lparr>lexer = lx', current_token = t\<rparr>"
    by (auto simp: Parser_init_def split: sum.splits)
  from t p show "tok_nonneg p"
    by (auto simp: tok_nonneg_def split: tok_value.splits dest: get_next_token_nonneg)
  from lx have "cc_ok lx"
    by (auto simp: Lexer_init_def cc_ok_def split: list.splits)
  with t p show "cc_ok (lexer p)" by (auto dest: get_next_token_cc_ok)
qed

lemma clause_run_nonneg: "clause_run p cs p' \<Longrightarrow> tok_nonneg p \<Longrightarrow> tok_nonneg p'"
  by (induction rule: clause_run.induct) (auto intro: tok_nonneg_token)

lemma die_loop_nonneg:
  "die_loop p m = Inr (m', p') \<Longrightarrow> cc_ok (lexer p) \<Longrightarrow> tok_nonneg p \<Longrightarrow> tok_nonneg p'"
  by (auto dest!: die_loop_clause_run dest: clause_run_nonneg)

lemma Parser_die_nonneg:
  assumes "Parser_die p = Inr (d, p')" and "tok_nonneg p"
  shows "0 \<le> num_dice d" and "0 \<le> sides d" and "tok_nonneg p'"
proof -
  from assms(1) have "\<exists>n p1 p2 p3 s m.
      ((n = 1 \<and> p1 = p) \<or> (tok_value (current_token p) = IntVal n \<and> eat INTEGER p = Inr p1))
      \<and> eat DELIM p1 = Inr p2 \<and> tok_value (current_token p2) = IntVal s
      \<and> eat INTEGER p2 = Inr p3 \<and> die_loop p3 0 = Inr (m, p')
      \<and> d = \<lparr>sides = s, num_dice = n, modifier = m\<rparr>"
    by (auto simp: Parser_die_def Let_def split: sum.splits tok_value.splits if_splits; blast)
  then obtain n p1 p2 p3 s m where
    n: "(n = 1 \<and> p1 = p) \<or> (tok_value (current_token p) = IntVal n \<and> eat INTEGER p = Inr p1)"
    and p2: "eat DELIM p1 = Inr p2" and s: "tok_value (current_token p2) = IntVal s"
    and p3: "eat INTEGER p2 = Inr p3" and m: "die_loop p3 0 = Inr (m, p')"
    and d: "d = \<lparr>sides = s, num_dice = n, modifier = m\<rparr>"
    by blast
  from n assms(2) d show "0 \<le> num_dice d" by (auto simp: tok_nonneg_def)
  from eat_nonneg [OF p2] s d show "0 \<le> sides d" by (simp add: tok_nonneg_def)
  from eat_type [OF p3] have "tok_type (current_token p2) \<noteq> EOF" by simp
  from eat_progress [OF p2 this] have "cc_ok (lexer p2)" by simp
  from eat_cc_ok [OF p3 this] have "cc_ok (lexer p3)" .
  from die_loop_nonneg [OF m this eat_nonneg [OF p3]] show "tok_nonneg p'" .
qed

definition nonneg_dice :: "DiceBag \<Rightarrow> bool" where
  "nonneg_dice bag = list_all (\<lambda>item. 0 \<le> num_dice (die item) \<and> 0 \<le> sides (die item)) bag"

lemma nonneg_dice_add_die:
  "nonneg_dice bag \<Longrightarrow> 0 \<le> num_dice d \<Longrightarrow> 0 \<le> sides d \<Longrightarrow> nonneg_dice (add_die bag d sub)"
  by (simp add: nonneg_dice_def add_die_def)

lemma dice_loop_nonneg:
  "dice_loop p bag = Inr (bag', p') \<Longrightarrow> nonneg_dice bag \<Longrightarrow> nonneg_dice bag'"
proof (induction p bag rule: dice_loop.induct)
  case (1 p to_return)
  show ?case
  proof (cases "tok_type (current_token p) = PLUS \<or> tok_type (current_token p) = MINUS")
    case False
    with "1.prems" show ?thesis by (subst (asm) dice_loop.simps) auto
  next
    case op: True
    show ?thesis
    proof (cases "tok_type (current_token p) = PLUS")
      case True
      with "1.prems"(1) obtain p1 d p2 where e: "eat PLUS p = Inr p1"
        and d: "Parser_die p1 = Inr (d, p2)"
        and l: "dice_loop p2 (add_die to_return d False) = Inr (bag', p')"
        by (subst (asm) dice_loop.simps) (auto split: sum.splits)
      from Parser_die_nonneg(1,2) [OF d eat_nonneg [OF e]] "1.prems"(2)
      have "nonneg_dice (add_die to_return d False)" by (simp add: nonneg_dice_add_die)
      from "1.IH"(1) [OF op True e d refl l this] show ?thesis .
    next
      case False
      with "1.prems"(1) op obtain p1 d p2 where e: "eat MINUS p = Inr p1"
        and d: "Parser_die p1 = Inr (d, p2)"
        and l: "dice_loop p2 (add_die to_return d True) = Inr (bag', p')"
        by (subst (asm) dice_loop.simps) (auto split: sum.splits)
      from Parser_die_nonneg(1,2) [OF d eat_nonneg [OF e]] "1.prems"(2)
      have "nonneg_dice (add_die to_return d True)" by (simp add: nonneg_dice_add_die)
      from "1.IH"(2) [OF op False e d refl l this] show ?thesis .
    qed
  qed
qed

lemma from_str_nonneg:
  assumes "from_str formula = Inr bag"
  shows "nonneg_dice bag"
proof -
  from assms obtain p d p1 p' where p: "Parser_init formula = Inr p"
    and d: "Parser_die p = Inr (d, p1)" and l: "dice_loop p1 (add_die [] d False) = Inr (bag, p')"
    by (auto simp: from_str_def Parser_dice_def split: sum.splits)
  from Parser_die_nonneg(1,2) [OF d Parser_init_ok(1) [OF p]]
  have "nonneg_dice (add_die [] d False)" by (simp add: nonneg_dice_def add_die_def)
  with l show ?thesis by (rule dice_loop_nonneg)
qed

section \<open>Bounds of a roll\<close>

text \<open>
  \<open>spec_min\<close> and \<open>spec_max\<close> are the bounds as the specification words them: the sum over
  the terms of sign times (\<open>num_dice\<close> times 1 plus modifier), and of sign times (\<open>num_dice\<close>
  times \<open>sides\<close> plus modifier). \<open>roll_min\<close> and \<open>roll_max\<close> are the least and the greatest
  sum that the terms allow: a subtracted term is least when its die is greatest.
  \<open>rollable\<close>: every die has at least one side and a number of dice that is not negative.
\<close>

definition sign_of :: "DiceBagItem \<Rightarrow> int" where
  "sign_of item = (if subtracted item then - 1 else 1)"

definition spec_min :: "DiceBag \<Rightarrow> int" where
  "spec_min bag =
     (\<Sum>item\<leftarrow>bag. sign_of item * (num_dice (die item) * 1 + modifier (die item)))"

definition spec_max :: "DiceBag \<Rightarrow> int" where
  "spec_max bag =
     (\<Sum>item\<leftarrow>bag. sign_of item * (num_dice (die item) * sides (die item) + modifier (die item)))"

definition term_min :: "DiceBagItem \<Rightarrow> int" where
  "term_min item =
     (if subtracted item
      then - (num_dice (die item) * sides (die item) + modifier (die item))
      else num_dice (die item) * 1 + modifier (die item))"

definition term_max :: "DiceBagItem \<Rightarrow> int" where
  "term_max item =
     (if subtracted item
      then - (num_dice (die item) * 1 + modifier (die item))
      else num_dice (die item) * sides (die item) + modifier (die item))"

definition roll_min :: "DiceBag \<Rightarrow> int" where
  "roll_min bag = (\<Sum>item\<leftarrow>bag. term_min item)"

definition roll_max :: "DiceBag \<Rightarrow> int" where
  "roll_max bag = (\<Sum>item\<leftarrow>bag. term_max item)"

definition rollable :: "DiceBag \<Rightarrow> bool" where
  "rollable bag = list_all (\<lambda>item. 1 \<le> sides (die item) \<and> 0 \<le> num_dice (die item)) bag"

lemma sum_list_bounds:
  "\<forall>x \<in> set xs. a \<le> x \<and> x \<le> b \<Longrightarrow>
   int (length xs) * a \<le> sum_list xs \<and> sum_list xs \<le> int (length xs) * b"
  by (induction xs) (auto simp: algebra_simps)

lemma Die_roll_bounds:
  assumes "1 \<le> sides d" and "0 \<le> num_dice d"
  shows "\<exists>r. Die_roll d src i = Inr (r, i + nat (num_dice d))
     \<and> num_dice d * 1 + modifier d \<le> r \<and> r \<le> num_dice d * sides d + modifier d"
proof -
  have "\<forall>x \<in> set (draws d src i). 1 \<le> x \<and> x \<le> sides d"
    using draw_range [OF assms(1)] by (auto simp: draws_def)
  from sum_list_bounds [OF this] assms(2)
  have "num_dice d * 1 \<le> sum_list (draws d src i)"
    and "sum_list (draws d src i) \<le> num_dice d * sides d"
    by (simp_all add: draws_def)
  with Die_roll_draws [OF assms(1), of src i] show ?thesis by simp
qed

lemma signed_rolls_bounds:
  "rollable bag \<Longrightarrow>
   \<exists>rs j. signed_rolls bag src i = Inr (rs, j)
     \<and> roll_min bag \<le> sum_list rs \<and> sum_list rs \<le> roll_max bag"
proof (induction bag arbitrary: i)
  case Nil
  show ?case by (simp add: roll_min_def roll_max_def)
next
  case (Cons item rest)
  then have d: "1 \<le> sides (die item)" "0 \<le> num_dice (die item)" and rest: "rollable rest"
    by (simp_all add: rollable_def)
  from Die_roll_bounds [OF d, of src i] obtain r
    where r: "Die_roll (die item) src i = Inr (r, i + nat (num_dice (die item)))"
      "num_dice (die item) * 1 + modifier (die item) \<le> r"
      "r \<le> num_dice (die item) * sides (die item) + modifier (die item)"
    by blast
  from Cons.IH [OF rest, of "i + nat (num_dice (die item))"] obtain rs j
    where rs: "signed_rolls rest src (i + nat (num_dice (die item))) = Inr (rs, j)"
      "roll_min rest \<le> sum_list rs" "sum_list rs \<le> roll_max rest"
    by blast
  from r(2,3) have "term_min item \<le> (if subtracted item then - 1 else 1) * r"
    and "(if subtracted item then - 1 else 1) * r \<le> term_max item"
    by (simp_all add: term_min_def term_max_def)
  with r(1) rs show ?case
    by (simp add: roll_min_def roll_max_def)
qed

lemma DiceBag_roll_bounds:
  assumes "rollable bag"
  shows "\<exists>r j. DiceBag_roll bag src i = Inr (r, j) \<and> roll_min bag \<le> r \<and> r \<le> roll_max bag"
proof -
  from signed_rolls_bounds [OF assms, of src i] obtain rs j
    where "signed_rolls bag src i = Inr (rs, j)"
      "roll_min bag \<le> sum_list rs" "sum_list rs \<le> roll_max bag"
    by blast
  then show ?thesis
    by (simp add: DiceBag_roll_def DiceBag_roll_loop_signed)
qed

lemma added_only_bounds:
  "list_all (\<lambda>item. \<not> subtracted item) bag \<Longrightarrow>
   roll_min bag = spec_min bag \<and> roll_max bag = spec_max bag"
  by (induction bag)
    (simp_all add: roll_min_def roll_max_def spec_min_def spec_max_def term_min_def
      term_max_def sign_of_def)

lemma parsed_rollable:
  assumes "from_str formula = Inr bag" and "list_all (\<lambda>item. 1 \<le> sides (die item)) bag"
  shows "rollable bag"
  using from_str_nonneg [OF assms(1)] assms(2)
  by (auto simp: nonneg_dice_def rollable_def list_all_iff)

text \<open>
  Claim C4 says that every valid formula rolls to an integer, and that the roll of a bag
  lies between \<open>spec_min\<close> and \<open>spec_max\<close>. Neither holds as stated. \<^verbatim>\<open>d0\<close> parses and its roll
  raises. \<^verbatim>\<open>d6+100-d6\<close> parses to an added \<open>1d6+100\<close> and a subtracted \<open>1d6\<close>; both stated
  bounds are 100 (not negative, and the modifiers outweigh anything subtracted), but with
  the draws 1 and 6 the roll is 95.
\<close>

theorem stated_bounds_fail:
  "from_str ''d0'' = Inr [\<lparr>die = \<lparr>sides = 0, num_dice = 1, modifier = 0\<rparr>, subtracted = False\<rparr>]
   \<and> roll ''d0'' (replay []) 0 = Inl (EmptyRange 1 0)
   \<and> from_str ''d6+100-d6'' =
       Inr [\<lparr>die = \<lparr>sides = 6, num_dice = 1, modifier = 100\<rparr>, subtracted = False\<rparr>,
            \<lparr>die = \<lparr>sides = 6, num_dice = 1, modifier = 0\<rparr>, subtracted = True\<rparr>]
   \<and> spec_min [\<lparr>die = \<lparr>sides = 6, num_dice = 1, modifier = 100\<rparr>, subtracted = False\<rparr>,
                \<lparr>die = \<lparr>sides = 6, num_dice = 1, modifier = 0\<rparr>, subtracted = True\<rparr>] = 100
   \<and> spec_max [\<lparr>die = \<lparr>sides = 6, num_dice = 1, modifier = 100\<rparr>, subtracted = False\<rparr>,
                \<lparr>die = \<lparr>sides = 6, num_dice = 1, modifier = 0\<rparr>, subtracted = True\<rparr>] = 100
   \<and> roll_min [\<lparr>die = \<lparr>sides = 6, num_dice = 1, modifier = 100\<rparr>, subtracted = False\<rparr>,
                \<lparr>die = \<lparr>sides = 6, num_dice = 1, modifier = 0\<rparr>, subtracted = True\<rparr>] = 95
   \<and> roll ''d6+100-d6'' (replay [0, 5]) 0 = Inr (95, 2)
   \<and> DiceBag_roll [\<lparr>die = \<lparr>sides = 6, num_dice = 1, modifier = 100\<rparr>, subtracted = False\<rparr>,
                    \<lparr>die = \<lparr>sides = 6, num_dice = 1, modifier = 0\<rparr>, subtracted = True\<rparr>]
        (replay [0, 5]) 0 = Inr (95, 2)
   \<and> (95::int) < 100"
  by code_simp

text \<open>
  Claim C4, amended. A bag all of whose dice have at least one side and a number of dice
  that is not negative rolls to an integer for every random source, and the roll lies
  between \<open>roll_min\<close> and \<open>roll_max\<close>: an added term counts with \<open>num_dice\<close> times 1 plus
  modifier in the lower and \<open>num_dice\<close> times \<open>sides\<close> plus modifier in the upper bound, a
  subtracted term with the negated upper value in the lower and the negated lower value
  in the upper bound. For a bag without subtracted terms these are the stated \<open>spec_min\<close>
  and \<open>spec_max\<close>. A formula that parses to dice with at least one side each rolls to an
  integer within these bounds.
\<close>

theorem roll_within_bounds:
  "(rollable bag \<longrightarrow>
      (\<exists>r j. DiceBag_roll bag src i = Inr (r, j) \<and> roll_min bag \<le> r \<and> r \<le> roll_max bag))
   \<and> (list_all (\<lambda>item. \<not> subtracted item) bag \<longrightarrow>
        roll_min bag = spec_min bag \<and> roll_max bag = spec_max bag)
   \<and> (from_str formula = Inr bag \<and> list_all (\<lambda>item. 1 \<le> sides (die item)) bag \<longrightarrow>
        (\<exists>r j. roll formula src i = Inr (r, j) \<and> roll_min bag \<le> r \<and> r \<le> roll_max bag))"
proof -
  have 1: "\<exists>r j. DiceBag_roll bag src i = Inr (r, j) \<and> roll_min bag \<le> r \<and> r \<le> roll_max bag"
    if "rollable bag"
    using that by (rule DiceBag_roll_bounds)
  have 2: "roll_min bag = spec_min bag \<and> roll_max bag = spec_max bag"
    if "list_all (\<lambda>item. \<not> subtracted item) bag"
    using that by (rule added_only_bounds)
  have 3: "\<exists>r j. roll formula src i = Inr (r, j) \<and> roll_min bag \<le> r \<and> r \<le> roll_max bag"
    if a: "from_str formula = Inr bag \<and> list_all (\<lambda>item. 1 \<le> sides (die item)) bag"
  proof -
    from a have "rollable bag" by (intro parsed_rollable [of formula]) simp_all
    from DiceBag_roll_bounds [OF this, of src i] a show ?thesis
      by (simp add: roll_def)
  qed
  from 1 2 3 show ?thesis by blast
qed

theorem roll_within_bounds_witness:
  "rollable [\<lparr>die = \<lparr>sides = 6, num_dice = 2, modifier = 3\<rparr>, subtracted = False\<rparr>,
             \<lparr>die = \<lparr>sides = 4, num_dice = 1, modifier = 0\<rparr>, subtracted = False\<rparr>]
   \<and> list_all (\<lambda>item. \<not> subtracted item)
        [\<lparr>die = \<lparr>sides = 6, num_dice = 2, modifier = 3\<rparr>, subtracted = False\<rparr>,
         \<lparr>die = \<lparr>sides = 4, num_dice = 1, modifier = 0\<rparr>, subtracted = False\<rparr>]
   \<and> from_str ''2d6+3+d4'' =
        Inr [\<lparr>die = \<lparr>sides = 6, num_dice = 2, modifier = 3\<rparr>, subtracted = False\<rparr>,
             \<lparr>die = \<lparr>sides = 4, num_dice = 1, modifier = 0\<rparr>, subtracted = False\<rparr>]
   \<and> list_all (\<lambda>item. 1 \<le> sides (die item))
        [\<lparr>die = \<lparr>sides = 6, num_dice = 2, modifier = 3\<rparr>, subtracted = False\<rparr>,
         \<lparr>die = \<lparr>sides = 4, num_dice = 1, modifier = 0\<rparr>, subtracted = False\<rparr>]
   \<and> (\<exists>r j. roll ''2d6+3+d4'' (replay [5, 0, 2]) 0 = Inr (r, j) \<and> 6 \<le> r \<and> r \<le> 19)
   \<and> spec_min [\<lparr>die = \<lparr>sides = 6, num_dice = 2, modifier = 3\<rparr>, subtracted = False\<rparr>,
                \<lparr>die = \<lparr>sides = 4, num_dice = 1, modifier = 0\<rparr>, subtracted = False\<rparr>] = 6
   \<and> spec_max [\<lparr>die = \<lparr>sides = 6, num_dice = 2, modifier = 3\<rparr>, subtracted = False\<rparr>,
                \<lparr>die = \<lparr>sides = 4, num_dice = 1, modifier = 0\<rparr>, subtracted = False\<rparr>] = 19"
proof -
  let ?b = "[\<lparr>die = \<lparr>sides = 6, num_dice = 2, modifier = 3\<rparr>, subtracted = False\<rparr>,
             \<lparr>die = \<lparr>sides = 4, num_dice = 1, modifier = 0\<rparr>, subtracted = False\<rparr>]"
  have h: "rollable ?b" "list_all (\<lambda>item. \<not> subtracted item) ?b"
    "from_str ''2d6+3+d4'' = Inr ?b" "list_all (\<lambda>item. 1 \<le> sides (die item)) ?b"
    by code_simp+
  have s: "spec_min ?b = 6" "spec_max ?b = 19" by code_simp+
  note t = roll_within_bounds [of ?b "replay [5, 0, 2]" 0 "''2d6+3+d4''"]
  from t h(2) s have b: "roll_min ?b = 6" "roll_max ?b = 19" by simp_all
  from t h(3,4) have "\<exists>r j. roll ''2d6+3+d4'' (replay [5, 0, 2]) 0 = Inr (r, j)
      \<and> roll_min ?b \<le> r \<and> r \<le> roll_max ?b"
    by blast
  then have "\<exists>r j. roll ''2d6+3+d4'' (replay [5, 0, 2]) 0 = Inr (r, j) \<and> 6 \<le> r \<and> r \<le> 19"
    unfolding b .
  with h s show ?thesis by blast
qed

section \<open>The lexer on the text that is left\<close>

text \<open>
  \<open>lexer_at pre s\<close> is the lexer that has read \<open>pre\<close> and has \<open>s\<close> left: its text is \<open>pre @ s\<close>
  and its cursor is behind \<open>pre\<close>. These are the states that satisfy the invariant with
  the cursor inside the text or at its end.
\<close>

definition lexer_at :: "string \<Rightarrow> string \<Rightarrow> Lexer" where
  "lexer_at pre s =
     \<lparr>lex_text = pre @ s, pos = length pre,
      current_char = (case s of [] \<Rightarrow> None | c # _ \<Rightarrow> Some c)\<rparr>"

lemma lexer_at_simps [simp]:
  "lex_text (lexer_at pre s) = pre @ s"
  "pos (lexer_at pre s) = length pre"
  "current_char (lexer_at pre []) = None"
  "current_char (lexer_at pre (c # s)) = Some c"
  by (simp_all add: lexer_at_def)

lemma cc_ok_lexer_at [simp]: "cc_ok (lexer_at pre s)"
  by (cases s) (simp_all add: cc_ok_def lexer_at_def nth_append)

lemma Lexer_init_at: "formula \<noteq> [] \<Longrightarrow> Lexer_init formula = Inr (lexer_at [] formula)"
  by (cases formula) (simp_all add: Lexer_init_def lexer_at_def)

lemma advance_at: "advance (lexer_at pre (c # s)) = lexer_at (pre @ [c]) s"
  by (cases s) (simp_all add: advance_def set_pos_def lexer_at_def nth_append)

lemma skip_whitespace_at:
  "skip_whitespace (lexer_at pre s) =
     lexer_at (pre @ takeWhile isspace s) (dropWhile isspace s)"
proof (induction s arbitrary: pre)
  case Nil
  show ?case by (subst skip_whitespace.simps) simp
next
  case (Cons c s)
  show ?case
    by (subst skip_whitespace.simps) (simp add: advance_at Cons.IH)
qed

lemma integer_loop_at:
  "integer_loop (lexer_at pre s) r =
     (r @ takeWhile isdecimal s, lexer_at (pre @ takeWhile isdecimal s) (dropWhile isdecimal s))"
proof (induction s arbitrary: pre r)
  case Nil
  show ?case by (subst integer_loop.simps) simp
next
  case (Cons c s)
  show ?case
    by (subst integer_loop.simps) (simp add: advance_at Cons.IH)
qed

lemma get_next_token_at_end:
  "get_next_token (lexer_at pre []) = Inr (Token EOF NoVal, lexer_at pre [])"
  by (simp add: get_next_token_def)

lemma get_next_token_at:
  assumes "s \<noteq> []"
  shows "get_next_token (lexer_at pre s) =
     (case dropWhile isspace s of
        [] \<Rightarrow> Inl NoneAttribute
      | c # r \<Rightarrow>
          if isdecimal c then
            Inr (Token INTEGER (IntVal (int_of_decimal (takeWhile isdecimal (c # r)))),
                 lexer_at (pre @ takeWhile isspace s @ takeWhile isdecimal (c # r))
                   (dropWhile isdecimal (c # r)))
          else if c = CHR ''d'' then
            Inr (Token DELIM (StrVal ''d''), lexer_at (pre @ takeWhile isspace s @ [c]) r)
          else if c = CHR ''+'' then
            Inr (Token PLUS (StrVal ''+''), lexer_at (pre @ takeWhile isspace s @ [c]) r)
          else if c = CHR ''-'' then
            Inr (Token MINUS (StrVal ''-''), lexer_at (pre @ takeWhile isspace s @ [c]) r)
          else Inl (InvalidCharacter c (length pre + length (takeWhile isspace s))))"
proof -
  define s1 where "s1 = dropWhile isspace s"
  define pre1 where "pre1 = pre @ takeWhile isspace s"
  from assms obtain a where cc: "current_char (lexer_at pre s) = Some a"
    by (cases s) auto
  have sk: "skip_whitespace (lexer_at pre s) = lexer_at pre1 s1"
    by (simp add: skip_whitespace_at s1_def pre1_def)
  have g: "get_next_token (lexer_at pre s) =
      (case current_char (lexer_at pre1 s1) of
         None \<Rightarrow> Inl NoneAttribute
       | Some c \<Rightarrow>
           if isdecimal c then
             (case integer (lexer_at pre1 s1) of
                Inl e \<Rightarrow> Inl e
              | Inr (v, lx2) \<Rightarrow> Inr (Token INTEGER (IntVal v), lx2))
           else if c = CHR ''d'' then Inr (Token DELIM (StrVal ''d''), advance (lexer_at pre1 s1))
           else if c = CHR ''+'' then Inr (Token PLUS (StrVal ''+''), advance (lexer_at pre1 s1))
           else if c = CHR ''-'' then Inr (Token MINUS (StrVal ''-''), advance (lexer_at pre1 s1))
           else Inl (InvalidCharacter c (pos (lexer_at pre1 s1))))"
    by (simp add: get_next_token_def cc sk Let_def)
  show ?thesis
  proof (cases s1)
    case Nil
    with g show ?thesis by (simp add: s1_def [symmetric])
  next
    case (Cons c r)
    have int: "integer (lexer_at pre1 (c # r)) =
        Inr (int_of_decimal (takeWhile isdecimal (c # r)),
             lexer_at (pre1 @ takeWhile isdecimal (c # r)) (dropWhile isdecimal (c # r)))"
      if "isdecimal c"
      using that by (simp add: integer_def integer_loop_at del: dropWhile.simps takeWhile.simps)
    from g Cons int show ?thesis
      by (simp add: s1_def [symmetric] advance_at pre1_def
          del: dropWhile.simps takeWhile.simps)
  qed
qed

lemma not_isdecimal_isspace: "isspace c \<Longrightarrow> \<not> isdecimal c"
  by (auto simp: isspace_def isdecimal_def Let_def)

lemma special_chars [simp]:
  "\<not> isspace CHR ''d''" "\<not> isspace CHR ''+''" "\<not> isspace CHR ''-''"
  "\<not> isdecimal CHR ''d''" "\<not> isdecimal CHR ''+''" "\<not> isdecimal CHR ''-''"
  "isspace CHR '' ''" "\<not> isdecimal CHR '' ''"
  by (simp_all add: isspace_def isdecimal_def)

text \<open>The token that a single special character gives, after any whitespace.\<close>

definition char_token :: "char \<Rightarrow> Token" where
  "char_token c =
     (if c = CHR ''d'' then Token DELIM (StrVal ''d'')
      else if c = CHR ''+'' then Token PLUS (StrVal ''+'')
      else Token MINUS (StrVal ''-''))"



section \<open>Text after a formula\<close>

text \<open>
  \<open>ends_with_sides formula\<close>: the formula ends with a \<^verbatim>\<open>d\<close>, whitespace or none, and digits:
  its last two tokens are a Delim and the Integer of the sides.
  \<open>token_follows formula T\<close>: the text \<open>T\<close> does not start with a digit, and its first token
  is an Integer, or it is a Delim and the formula ends with sides.
\<close>

definition ends_with_sides :: "string \<Rightarrow> bool" where
  "ends_with_sides formula =
     (let r = rev formula in
      takeWhile isdecimal r \<noteq> []
      \<and> (case dropWhile isspace (dropWhile isdecimal r) of
           [] \<Rightarrow> False
         | c # _ \<Rightarrow> c = CHR ''d''))"

definition token_follows :: "string \<Rightarrow> string \<Rightarrow> bool" where
  "token_follows formula T =
     (case T of
        [] \<Rightarrow> False
      | w # _ \<Rightarrow>
          \<not> isdecimal w
          \<and> (case dropWhile isspace T of
               [] \<Rightarrow> False
             | c # _ \<Rightarrow> isdecimal c \<or> (c = CHR ''d'' \<and> ends_with_sides formula)))"

text \<open>
  Two parsers that differ only in a text \<open>T\<close> that the second has after the text \<open>F\<close> of
  the first: \<open>follows F T p q\<close> while both are at the same place with the same current
  token (\<open>operator_read\<close>: an operator that is the current token is the last character
  read), and \<open>parted F p q\<close> once the first has reached its end of input where the second
  has read the first token of \<open>T\<close>.
\<close>

definition operator_read :: "string \<Rightarrow> Token \<Rightarrow> bool" where
  "operator_read pre t =
     (if tok_type t = PLUS \<or> tok_type t = MINUS
      then pre \<noteq> [] \<and> (last pre = CHR ''+'' \<or> last pre = CHR ''-'')
      else True)"

definition follows :: "string \<Rightarrow> string \<Rightarrow> Parser \<Rightarrow> Parser \<Rightarrow> bool" where
  "follows F T p q =
     (\<exists>pre s. lexer p = lexer_at pre s \<and> lexer q = lexer_at pre (s @ T)
        \<and> current_token q = current_token p \<and> pre @ s = F
        \<and> operator_read pre (current_token p))"

definition parted :: "string \<Rightarrow> Parser \<Rightarrow> Parser \<Rightarrow> bool" where
  "parted F p q =
     (tok_type (current_token p) = EOF
      \<and> (tok_type (current_token q) = INTEGER
         \<or> tok_type (current_token q) = DELIM \<and> ends_with_sides F)
      \<and> cc_ok (lexer p) \<and> cc_ok (lexer q))"

lemma append_stop:
  "T \<noteq> [] \<Longrightarrow> \<not> P (hd T) \<Longrightarrow>
   takeWhile P (xs @ T) = takeWhile P xs \<and> dropWhile P (xs @ T) = dropWhile P xs @ T"
  by (induction xs) (cases T; simp)+

lemma append_nonempty:
  "dropWhile P xs \<noteq> [] \<Longrightarrow>
   takeWhile P (xs @ T) = takeWhile P xs \<and> dropWhile P (xs @ T) = dropWhile P xs @ T"
  by (induction xs) auto

lemma token_follows_stop: "token_follows F T \<Longrightarrow> T \<noteq> [] \<and> \<not> isdecimal (hd T)"
  by (cases T) (auto simp: token_follows_def)

lemma get_next_token_EOF_iff:
  "get_next_token lx = Inr (t, lx') \<Longrightarrow> (tok_type t = EOF) = (current_char lx = None)"
  by (auto simp: get_next_token_def Let_def split: option.splits if_splits sum.splits)

lemma get_next_token_None:
  "current_char lx = None \<Longrightarrow> get_next_token lx = Inr (Token EOF NoVal, lx)"
  by (simp add: get_next_token_def)

lemma get_next_token_append:
  assumes T: "T \<noteq> []" "\<not> isdecimal (hd T)"
    and g: "get_next_token (lexer_at pre s) = Inr (t, lx')" and ne: "tok_type t \<noteq> EOF"
  shows "\<exists>pre' s'. lx' = lexer_at pre' s' \<and> pre' @ s' = pre @ s \<and> operator_read pre' t \<and>
     get_next_token (lexer_at pre (s @ T)) = Inr (t, lexer_at pre' (s' @ T))"
proof -
  from get_next_token_EOF_iff [OF g] ne have s: "s \<noteq> []" by (cases s) auto
  then have sT: "s @ T \<noteq> []" by simp
  from g get_next_token_at [OF s, of pre] obtain c r where cr: "dropWhile isspace s = c # r"
    by (cases "dropWhile isspace s") auto
  then have "dropWhile isspace s \<noteq> []" by simp
  from append_nonempty [OF this, of T] cr
  have w: "takeWhile isspace (s @ T) = takeWhile isspace s"
    "dropWhile isspace (s @ T) = c # (r @ T)" by simp_all
  from append_stop [where P = isdecimal and xs = "c # r", OF T]
  have d: "takeWhile isdecimal (c # (r @ T)) = takeWhile isdecimal (c # r)"
    "dropWhile isdecimal (c # (r @ T)) = dropWhile isdecimal (c # r) @ T" by simp_all
  have split: "takeWhile isspace s @ c # r = s"
    using takeWhile_dropWhile_id [of isspace s] cr by simp
  show ?thesis
  proof (cases "isdecimal c")
    case True
    let ?pre' = "pre @ takeWhile isspace s @ takeWhile isdecimal (c # r)"
    from True g get_next_token_at [OF s, of pre] cr
    have t: "t = Token INTEGER (IntVal (int_of_decimal (takeWhile isdecimal (c # r))))"
      and lx': "lx' = lexer_at ?pre' (dropWhile isdecimal (c # r))"
      by (simp_all del: dropWhile.simps takeWhile.simps)
    from True get_next_token_at [OF sT, of pre] w d
    have q: "get_next_token (lexer_at pre (s @ T)) =
        Inr (Token INTEGER (IntVal (int_of_decimal (takeWhile isdecimal (c # r)))),
             lexer_at ?pre' (dropWhile isdecimal (c # r) @ T))"
      by (simp del: dropWhile.simps takeWhile.simps)
    have "?pre' @ dropWhile isdecimal (c # r) = pre @ takeWhile isspace s @ c # r"
      using takeWhile_dropWhile_id [of isdecimal "c # r"]
      by (simp del: dropWhile.simps takeWhile.simps)
    with split have "?pre' @ dropWhile isdecimal (c # r) = pre @ s" by simp
    moreover have "operator_read ?pre' t" by (simp add: t operator_read_def)
    ultimately show ?thesis using t lx' q by blast
  next
    case False
    let ?pre' = "pre @ takeWhile isspace s @ [c]"
    from False g get_next_token_at [OF s, of pre] cr
    have c: "c = CHR ''d'' \<or> c = CHR ''+'' \<or> c = CHR ''-''"
      and lx': "lx' = lexer_at ?pre' r" and t: "t = char_token c"
      by (auto simp: char_token_def simp del: dropWhile.simps takeWhile.simps split: if_splits)
    from False g get_next_token_at [OF s, of pre] get_next_token_at [OF sT, of pre] w cr c
    have q: "get_next_token (lexer_at pre (s @ T)) = Inr (t, lexer_at ?pre' (r @ T))"
      by (auto simp del: dropWhile.simps takeWhile.simps split: if_splits)
    from split have "?pre' @ r = pre @ s" by simp
    moreover from c have "operator_read ?pre' t"
      by (auto simp: t char_token_def operator_read_def)
    ultimately show ?thesis using lx' q by blast
  qed
qed

lemma get_next_token_trailing:
  assumes "token_follows F T"
  shows "\<exists>t lx'. get_next_token (lexer_at pre T) = Inr (t, lx') \<and> cc_ok lx'
     \<and> (tok_type t = INTEGER \<or> tok_type t = DELIM \<and> ends_with_sides F)"
proof -
  from assms have T: "T \<noteq> []" by (cases T) (auto simp: token_follows_def)
  from assms have "case dropWhile isspace T of
      [] \<Rightarrow> False
    | c # _ \<Rightarrow> isdecimal c \<or> (c = CHR ''d'' \<and> ends_with_sides F)"
    by (cases T) (simp_all add: token_follows_def del: dropWhile.simps)
  then obtain c r where "dropWhile isspace T = c # r"
    "isdecimal c \<or> (c = CHR ''d'' \<and> ends_with_sides F)"
    by (cases "dropWhile isspace T") auto
  with get_next_token_at [OF T, of pre] show ?thesis
    by (auto simp del: dropWhile.simps takeWhile.simps)
qed

lemma number_to_end:
  assumes "get_next_token (lexer_at pre s) = Inr (t, lx1)" and "tok_type t = INTEGER"
    and "current_char lx1 = None"
  shows "\<exists>ws ds. s = ws @ ds \<and> (\<forall>x \<in> set ws. isspace x) \<and> (\<forall>x \<in> set ds. isdecimal x)"
proof -
  from get_next_token_EOF_iff [OF assms(1)] assms(2) have s: "s \<noteq> []" by (cases s) auto
  from assms(1) get_next_token_at [OF s, of pre] obtain c r
    where cr: "dropWhile isspace s = c # r"
    by (cases "dropWhile isspace s") auto
  with assms(1,2) get_next_token_at [OF s, of pre]
  have "isdecimal c" and "lx1 = lexer_at (pre @ takeWhile isspace s @ takeWhile isdecimal (c # r))
      (dropWhile isdecimal (c # r))"
    by (auto simp del: dropWhile.simps takeWhile.simps split: if_splits)
  with assms(3) have "dropWhile isdecimal (c # r) = []"
    by (cases "dropWhile isdecimal (c # r)") (simp_all del: dropWhile.simps)
  then have "\<forall>x \<in> set (c # r). isdecimal x"
    by (simp only: dropWhile_eq_Nil_conv)
  moreover have "\<forall>x \<in> set (takeWhile isspace s). isspace x"
    by (auto dest: set_takeWhileD)
  moreover have "s = takeWhile isspace s @ c # r"
    using takeWhile_dropWhile_id [of isspace s] cr by simp
  ultimately show ?thesis by blast
qed

lemma run_then_stop:
  "\<forall>x \<in> set xs. P x \<Longrightarrow> ys = [] \<or> \<not> P (hd ys) \<Longrightarrow>
   takeWhile P (xs @ ys) = xs \<and> dropWhile P (xs @ ys) = ys"
  by (induction xs) (cases ys; auto)+

lemma operator_then_number:
  assumes "pre \<noteq> []" and "last pre = CHR ''+'' \<or> last pre = CHR ''-''"
    and ws: "\<forall>x \<in> set ws. isspace x" and ds: "\<forall>x \<in> set ds. isdecimal x"
  shows "\<not> ends_with_sides (pre @ ws @ ds)"
proof -
  from assms(1) obtain c0 rp where rp: "rev pre = c0 # rp" and c0: "c0 = last pre"
    by (cases pre rule: rev_cases) auto
  with assms(2) have op: "c0 = CHR ''+'' \<or> c0 = CHR ''-''" by simp
  then have c0': "\<not> isdecimal c0" "\<not> isspace c0" "c0 \<noteq> CHR ''d''" by auto
  have r: "rev (pre @ ws @ ds) = rev ds @ (rev ws @ c0 # rp)" by (simp add: rp)
  have "\<not> isdecimal (hd (rev ws @ c0 # rp))"
    using ws c0' by (cases "rev ws") (auto dest: not_isdecimal_isspace)
  with ds have 1: "dropWhile isdecimal (rev ds @ (rev ws @ c0 # rp)) = rev ws @ c0 # rp"
    by (intro run_then_stop [THEN conjunct2]) simp_all
  from ws c0' have 2: "dropWhile isspace (rev ws @ c0 # rp) = c0 # rp"
    by (intro run_then_stop [THEN conjunct2]) simp_all
  from c0' show ?thesis
    by (simp add: ends_with_sides_def r 1 2 Let_def del: rev_append)
qed

lemma follows_token:
  assumes T: "token_follows F T" and f: "follows F T p q"
    and g: "get_next_token (lexer p) = Inr (t, lx')"
  shows "\<exists>t' lq'. get_next_token (lexer q) = Inr (t', lq') \<and>
     (follows F T (p'\<lparr>lexer := lx', current_token := t\<rparr>) (q'\<lparr>lexer := lq', current_token := t'\<rparr>)
      \<and> t' = t \<and> tok_type t \<noteq> EOF
      \<or> parted F (p'\<lparr>lexer := lx', current_token := t\<rparr>) (q'\<lparr>lexer := lq', current_token := t'\<rparr>)
      \<and> tok_type t = EOF \<and> lx' = lexer p)"
proof -
  from f obtain pre s where p: "lexer p = lexer_at pre s" and q: "lexer q = lexer_at pre (s @ T)"
    and F: "pre @ s = F"
    by (auto simp: follows_def)
  show ?thesis
  proof (cases "tok_type t = EOF")
    case True
    with get_next_token_EOF_iff [OF g] p have s: "s = []" by (cases s) auto
    with g p have lx': "lx' = lexer p" by (simp add: get_next_token_at_end)
    from get_next_token_trailing [OF T, of pre] obtain t' lq'
      where "get_next_token (lexer_at pre T) = Inr (t', lq')" "cc_ok lq'"
        "tok_type t' = INTEGER \<or> tok_type t' = DELIM \<and> ends_with_sides F"
      by blast
    with True s p q lx' show ?thesis
      by (auto simp: parted_def)
  next
    case False
    from token_follows_stop [OF T] have "T \<noteq> []" "\<not> isdecimal (hd T)" by simp_all
    from get_next_token_append [OF this g [unfolded p] False] obtain pre' s'
      where "lx' = lexer_at pre' s'" "pre' @ s' = pre @ s" "operator_read pre' t"
        "get_next_token (lexer_at pre (s @ T)) = Inr (t, lexer_at pre' (s' @ T))"
      by blast
    with False q F show ?thesis
      by (auto simp: follows_def)
  qed
qed

lemma follows_eat:
  assumes T: "token_follows F T" and f: "follows F T p q" and e: "eat k p = Inr p'"
  shows "\<exists>q'. eat k q = Inr q' \<and> (follows F T p' q' \<or> parted F p' q')"
proof -
  from f have ct: "current_token q = current_token p" by (auto simp: follows_def)
  from e obtain t lx' where k: "k = tok_type (current_token p)"
    and g: "get_next_token (lexer p) = Inr (t, lx')"
    and p': "p' = p\<lparr>lexer := lx', current_token := t\<rparr>"
    by (auto simp: eat_def split: if_splits sum.splits)
  from follows_token [OF T f g, of p q] obtain t' lq'
    where "get_next_token (lexer q) = Inr (t', lq')"
      "follows F T p' (q\<lparr>lexer := lq', current_token := t'\<rparr>)
       \<or> parted F p' (q\<lparr>lexer := lq', current_token := t'\<rparr>)"
    unfolding p' by blast
  with k ct show ?thesis
    by (auto simp: eat_def)
qed

text \<open>
  \<open>stranded p\<close>: the current token is an operator and the input has ended; the loop of
  \<^verbatim>\<open>Parser.dice\<close> then fails, because a die must follow an operator.
\<close>

definition stranded :: "Parser \<Rightarrow> bool" where
  "stranded p =
     ((tok_type (current_token p) = PLUS \<or> tok_type (current_token p) = MINUS)
      \<and> current_char (lexer p) = None)"

lemma parted_not_operator:
  assumes "parted F p q"
  shows "tok_type (current_token p) \<noteq> PLUS" "tok_type (current_token p) \<noteq> MINUS"
    "tok_type (current_token q) \<noteq> PLUS" "tok_type (current_token q) \<noteq> MINUS"
  using assms by (auto simp: parted_def)

lemma follows_same_token: "follows F T p q \<Longrightarrow> current_token q = current_token p"
  by (auto simp: follows_def)

lemma follows_cc_ok: "follows F T p q \<Longrightarrow> cc_ok (lexer p) \<and> cc_ok (lexer q)"
  by (auto simp: follows_def)

lemma clause_run_not_operator:
  assumes "clause_run p cs p'"
    and "tok_type (current_token p) \<noteq> PLUS" and "tok_type (current_token p) \<noteq> MINUS"
  shows "cs = [] \<and> p' = p"
  using assms by (cases rule: clause_run.cases) auto

lemma follows_clause_run:
  assumes T: "token_follows F T" and run: "clause_run p cs p'" and f: "follows F T p q"
  shows "\<exists>q'. clause_run q cs q' \<and> (follows F T p' q' \<or> parted F p' q')"
  using run f
proof (induction arbitrary: q rule: clause_run.induct)
  case (no_clause p)
  then show ?case by (auto intro: clause_run.no_clause)
next
  case (clause p v lx1 t2 lx2 cs p')
  let ?p1 = "p\<lparr>lexer := lx1, current_token := Token INTEGER (IntVal v)\<rparr>"
  let ?p2 = "p\<lparr>lexer := lx2, current_token := t2\<rparr>"
  from follows_same_token [OF clause.prems] clause.hyps(1)
  have opq: "tok_type (current_token q) = PLUS \<or> tok_type (current_token q) = MINUS"
    and same: "tok_type (current_token q) = tok_type (current_token p)"
    by simp_all
  from follows_token [OF T clause.prems clause.hyps(2), of p q] obtain lq1
    where q1: "get_next_token (lexer q) = Inr (Token INTEGER (IntVal v), lq1)"
      and f1: "follows F T ?p1 (q\<lparr>lexer := lq1, current_token := Token INTEGER (IntVal v)\<rparr>)"
    by (auto simp: parted_def)
  from clause.hyps(3) have "get_next_token (lexer ?p1) = Inr (t2, lx2)" by simp
  from follows_token [OF T f1 this, of p q] obtain t2' lq2
    where q2: "get_next_token lq1 = Inr (t2', lq2)"
      and alt: "follows F T ?p2 (q\<lparr>lexer := lq2, current_token := t2'\<rparr>) \<and> t2' = t2
        \<or> parted F ?p2 (q\<lparr>lexer := lq2, current_token := t2'\<rparr>)"
    by auto
  let ?q2 = "q\<lparr>lexer := lq2, current_token := t2'\<rparr>"
  from alt show ?case
  proof
    assume a: "follows F T ?p2 ?q2 \<and> t2' = t2"
    with clause.IH [of ?q2] obtain q'
      where q': "clause_run ?q2 cs q'" "follows F T p' q' \<or> parted F p' q'"
      by blast
    from a clause.hyps(4) have "tok_type t2' \<noteq> DELIM" by simp
    from clause_run.clause [OF opq q1 q2 this q'(1)] same q'(2) show ?thesis
      by auto
  next
    assume a: "parted F ?p2 ?q2"
    then have "tok_type (current_token ?p2) \<noteq> PLUS" "tok_type (current_token ?p2) \<noteq> MINUS"
      and eof: "tok_type t2 = EOF"
      and kind: "tok_type t2' = INTEGER \<or> tok_type t2' = DELIM \<and> ends_with_sides F"
      by (simp_all add: parted_def)
    from clause_run_not_operator [OF clause.hyps(5) this(1,2)]
    have e: "cs = []" "p' = ?p2" by simp_all
    from clause.prems obtain pre s where p: "lexer p = lexer_at pre s" and F: "pre @ s = F"
      and r: "operator_read pre (current_token p)"
      by (auto simp: follows_def)
    from r clause.hyps(1) have pre: "pre \<noteq> []" "last pre = CHR ''+'' \<or> last pre = CHR ''-''"
      by (auto simp: operator_read_def)
    from get_next_token_EOF_iff [OF clause.hyps(3)] eof have "current_char lx1 = None" by simp
    from number_to_end [OF clause.hyps(2) [unfolded p] _ this] obtain ws ds
      where "s = ws @ ds" "\<forall>x \<in> set ws. isspace x" "\<forall>x \<in> set ds. isdecimal x"
      by auto
    with operator_then_number [OF pre, of ws ds] F have "\<not> ends_with_sides F" by simp
    with kind have nd: "tok_type t2' \<noteq> DELIM" by auto
    from clause_run.clause [OF opq q1 q2 nd clause_run.no_clause] same a e show ?thesis
      by auto
  qed
qed

lemma follows_run_ends:
  assumes T: "token_follows F T" and f: "follows F T p q" and e: "run_ends p"
  shows "run_ends q \<or> stranded p"
proof (cases "tok_type (current_token p) = PLUS \<or> tok_type (current_token p) = MINUS")
  case False
  with follows_same_token [OF f] show ?thesis by (simp add: run_ends_def)
next
  case op: True
  with e have c: "case get_next_token (lexer p) of
      Inl e \<Rightarrow> False
    | Inr (t1, lx1) \<Rightarrow>
        tok_type t1 \<noteq> INTEGER
        \<or> (case get_next_token lx1 of Inl e \<Rightarrow> False | Inr (t2, lx2) \<Rightarrow> tok_type t2 = DELIM)"
    by (auto simp: run_ends_def)
  then obtain t1 lx1 where t1: "get_next_token (lexer p) = Inr (t1, lx1)"
    by (cases "get_next_token (lexer p)") auto
  show ?thesis
  proof (cases "tok_type t1 = EOF")
    case True
    with get_next_token_EOF_iff [OF t1] op show ?thesis by (simp add: stranded_def)
  next
    case False
    let ?p1 = "p\<lparr>lexer := lx1, current_token := t1\<rparr>"
    from follows_token [OF T f t1, of p q] False obtain lq1
      where q1: "get_next_token (lexer q) = Inr (t1, lq1)"
        and f1: "follows F T ?p1 (q\<lparr>lexer := lq1, current_token := t1\<rparr>)"
      by auto
    show ?thesis
    proof (cases "tok_type t1 = INTEGER")
      case False
      with q1 show ?thesis by (simp add: run_ends_def)
    next
      case True
      with c t1 have d: "case get_next_token lx1 of
          Inl e \<Rightarrow> False | Inr (t2, lx2) \<Rightarrow> tok_type t2 = DELIM"
        by simp
      then obtain t2 lx2 where t2: "get_next_token lx1 = Inr (t2, lx2)"
        by (cases "get_next_token lx1") auto
      with d have del: "tok_type t2 = DELIM" by simp
      from t2 have "get_next_token (lexer ?p1) = Inr (t2, lx2)" by simp
      from follows_token [OF T f1 this, of p q] del obtain lq2
        where "get_next_token lq1 = Inr (t2, lq2)"
        by (auto simp: parted_def)
      with q1 del show ?thesis by (simp add: run_ends_def)
    qed
  qed
qed

lemma follows_die_loop:
  assumes T: "token_follows F T" and f: "follows F T p q \<or> parted F p q"
    and d: "die_loop p m = Inr (m', p')"
  shows "stranded p' \<or>
     (\<exists>q'. die_loop q m = Inr (m', q') \<and> (follows F T p' q' \<or> parted F p' q'))"
  using f
proof
  assume a: "parted F p q"
  then have "die_loop p m = Inr (m, p)" "die_loop q m = Inr (m, q)"
    by (simp_all add: parted_not_operator die_loop_not_operator)
  with d a show ?thesis by auto
next
  assume a: "follows F T p q"
  from follows_cc_ok [OF a] have ok: "cc_ok (lexer p)" "cc_ok (lexer q)" by simp_all
  from die_loop_clause_run [OF d ok(1)] obtain cs
    where cs: "clause_run p cs p'" "run_ends p'" "m' = m + sum_list (map signed cs)"
    by blast
  from follows_clause_run [OF T cs(1) a] obtain q'
    where q': "clause_run q cs q'" "follows F T p' q' \<or> parted F p' q'"
    by blast
  from q'(2) have "run_ends q' \<or> stranded p'"
  proof
    assume "follows F T p' q'"
    from follows_run_ends [OF T this cs(2)] show ?thesis .
  next
    assume "parted F p' q'"
    then show ?thesis by (simp add: parted_not_operator run_ends_def)
  qed
  then show ?thesis
  proof
    assume "run_ends q'"
    from clause_run_die_loop [OF q'(1) ok(2) this, of m] cs(3) q'(2) show ?thesis
      by auto
  next
    assume "stranded p'"
    then show ?thesis ..
  qed
qed

text \<open>\<^verbatim>\<open>Parser.die\<close> step by step: what a successful call went through, and back.\<close>

lemma Parser_die_steps:
  "(Parser_die p = Inr (d, p')) =
   (\<exists>n p1 p2 p3 s m.
      (if tok_type (current_token p) = INTEGER
       then tok_value (current_token p) = IntVal n \<and> eat INTEGER p = Inr p1
       else n = 1 \<and> p1 = p)
      \<and> eat DELIM p1 = Inr p2 \<and> tok_value (current_token p2) = IntVal s
      \<and> eat INTEGER p2 = Inr p3 \<and> die_loop p3 0 = Inr (m, p')
      \<and> d = \<lparr>sides = s, num_dice = n, modifier = m\<rparr>)"
  by (auto simp: Parser_die_def Let_def split: sum.splits tok_value.splits)

lemma parted_eat: "parted F p q \<Longrightarrow> k \<noteq> EOF \<Longrightarrow> eat k p = Inl (UnexpectedToken k EOF)"
  by (simp add: parted_def eat_def)

lemma follows_Parser_die:
  assumes T: "token_follows F T" and f: "follows F T p q \<or> parted F p q"
    and d: "Parser_die p = Inr (d, p')"
  shows "stranded p' \<or>
     (\<exists>q'. Parser_die q = Inr (d, q') \<and> (follows F T p' q' \<or> parted F p' q'))"
proof -
  from d [unfolded Parser_die_steps] obtain n p1 p2 p3 s m where
    n: "if tok_type (current_token p) = INTEGER
       then tok_value (current_token p) = IntVal n \<and> eat INTEGER p = Inr p1
       else n = 1 \<and> p1 = p"
    and p2: "eat DELIM p1 = Inr p2" and s: "tok_value (current_token p2) = IntVal s"
    and p3: "eat INTEGER p2 = Inr p3" and m: "die_loop p3 0 = Inr (m, p')"
    and dd: "d = \<lparr>sides = s, num_dice = n, modifier = m\<rparr>"
    by blast
  have fp: "follows F T p q"
  proof (rule ccontr)
    assume "\<not> follows F T p q"
    with f have a: "parted F p q" by simp
    then have "tok_type (current_token p) \<noteq> INTEGER" by (simp add: parted_def)
    with n p2 parted_eat [OF a, of DELIM] show False by simp
  qed
  have "\<exists>q1. (if tok_type (current_token q) = INTEGER
       then tok_value (current_token q) = IntVal n \<and> eat INTEGER q = Inr q1
       else n = 1 \<and> q1 = q) \<and> (follows F T p1 q1 \<or> parted F p1 q1)"
  proof (cases "tok_type (current_token p) = INTEGER")
    case True
    with n have e: "eat INTEGER p = Inr p1" by simp
    from follows_eat [OF T fp e] True n follows_same_token [OF fp] show ?thesis
      by auto
  next
    case False
    with n fp follows_same_token [OF fp] show ?thesis by auto
  qed
  then obtain q1 where q1: "if tok_type (current_token q) = INTEGER
       then tok_value (current_token q) = IntVal n \<and> eat INTEGER q = Inr q1
       else n = 1 \<and> q1 = q" and f1: "follows F T p1 q1 \<or> parted F p1 q1"
    by blast
  from f1 p2 parted_eat [of F p1 q1 DELIM] have f1': "follows F T p1 q1" by auto
  from follows_eat [OF T f1' p2] obtain q2
    where q2: "eat DELIM q1 = Inr q2" and f2: "follows F T p2 q2 \<or> parted F p2 q2"
    by blast
  from f2 p3 parted_eat [of F p2 q2 INTEGER] have f2': "follows F T p2 q2" by auto
  from follows_eat [OF T f2' p3] obtain q3
    where q3: "eat INTEGER q2 = Inr q3" and f3: "follows F T p3 q3 \<or> parted F p3 q3"
    by blast
  from follows_die_loop [OF T f3 m] show ?thesis
  proof
    assume "stranded p'"
    then show ?thesis ..
  next
    assume "\<exists>q'. die_loop q3 0 = Inr (m, q') \<and> (follows F T p' q' \<or> parted F p' q')"
    then obtain q' where q': "die_loop q3 0 = Inr (m, q')" "follows F T p' q' \<or> parted F p' q'"
      by blast
    from q1 q2 q3 q'(1) s follows_same_token [OF f2'] dd
    have "Parser_die q = Inr (d, q')"
      unfolding Parser_die_steps
      by (cases "tok_type (current_token q) = INTEGER") auto
    with q'(2) show ?thesis by blast
  qed
qed

lemma stranded_dice_loop:
  assumes "stranded p"
  shows "dice_loop p bag = Inl (UnexpectedToken DELIM EOF)"
proof -
  from assms have op: "tok_type (current_token p) = PLUS \<or> tok_type (current_token p) = MINUS"
    and g: "get_next_token (lexer p) = Inr (Token EOF NoVal, lexer p)"
    by (simp_all add: stranded_def get_next_token_None)
  have "Parser_die (p\<lparr>lexer := lexer p, current_token := Token EOF NoVal\<rparr>) =
      Inl (UnexpectedToken DELIM EOF)"
    by (simp add: Parser_die_def eat_def)
  with dice_loop_operator [OF op g, of bag] show ?thesis by simp
qed

lemma follows_dice_loop:
  assumes T: "token_follows F T"
  shows "dice_loop p bag = Inr (bag', p') \<Longrightarrow> follows F T p q \<or> parted F p q \<Longrightarrow>
     \<exists>q'. dice_loop q bag = Inr (bag', q')"
proof (induction p bag arbitrary: q rule: dice_loop.induct)
  case (1 p to_return)
  show ?case
  proof (cases "tok_type (current_token p) = PLUS \<or> tok_type (current_token p) = MINUS")
    case False
    with "1.prems"(2) have "tok_type (current_token q) \<noteq> PLUS" "tok_type (current_token q) \<noteq> MINUS"
      by (auto dest: parted_not_operator follows_same_token)
    with False "1.prems"(1) show ?thesis
      by (simp add: dice_loop_not_operator)
  next
    case op: True
    with "1.prems"(2) have f: "follows F T p q" by (auto dest: parted_not_operator)
    from follows_same_token [OF f] have ct: "current_token q = current_token p" .
    let ?k = "tok_type (current_token p)"
    from "1.prems"(1) op obtain p1 d p2 where e: "eat ?k p = Inr p1"
      and d: "Parser_die p1 = Inr (d, p2)"
      and l: "dice_loop p2 (add_die to_return d (?k = MINUS)) = Inr (bag', p')"
      by (subst (asm) dice_loop.simps) (auto split: sum.splits if_splits)
    from follows_eat [OF T f e] obtain q1
      where q1: "eat ?k q = Inr q1" and f1: "follows F T p1 q1 \<or> parted F p1 q1"
      by blast
    from l stranded_dice_loop [of p2] have "\<not> stranded p2" by auto
    with follows_Parser_die [OF T f1 d] obtain q2
      where q2: "Parser_die q1 = Inr (d, q2)" and f2: "follows F T p2 q2 \<or> parted F p2 q2"
      by blast
    have "\<exists>q'. dice_loop q2 (add_die to_return d (?k = MINUS)) = Inr (bag', q')"
    proof (cases "?k = PLUS")
      case True
      with e l have e': "eat PLUS p = Inr p1"
        and l': "dice_loop p2 (add_die to_return d False) = Inr (bag', p')"
        by simp_all
      from "1.IH"(1) [OF op True e' d refl l' f2] True show ?thesis by simp
    next
      case False
      with op have m: "?k = MINUS" by simp
      with e l have e': "eat MINUS p = Inr p1"
        and l': "dice_loop p2 (add_die to_return d True) = Inr (bag', p')"
        by simp_all
      from "1.IH"(2) [OF op False e' d refl l' f2] m show ?thesis by simp
    qed
    then obtain q' where "dice_loop q2 (add_die to_return d (?k = MINUS)) = Inr (bag', q')" ..
    with op ct q1 q2 show ?thesis
      by (subst dice_loop.simps) auto
  qed
qed

lemma from_str_trailing:
  assumes T: "token_follows formula T" and F: "from_str formula = Inr bag"
  shows "from_str (formula @ T) = Inr bag"
proof -
  from F obtain p d p1 pf where p: "Parser_init formula = Inr p"
    and d: "Parser_die p = Inr (d, p1)" and l: "dice_loop p1 (add_die [] d False) = Inr (bag, pf)"
    by (auto simp: from_str_def Parser_dice_def split: sum.splits)
  from p have ne: "formula \<noteq> []"
    by (auto simp: Parser_init_def Lexer_init_def)
  with p obtain t lx' where g: "get_next_token (lexer_at [] formula) = Inr (t, lx')"
    and pp: "p = \<lparr>lexer = lx', current_token = t\<rparr>"
    by (auto simp: Parser_init_def Lexer_init_at split: sum.splits)
  let ?p0 = "\<lparr>lexer = lexer_at [] formula, current_token = Token EOF NoVal\<rparr>"
  let ?q0 = "\<lparr>lexer = lexer_at [] (formula @ T), current_token = Token EOF NoVal\<rparr>"
  have f0: "follows formula T ?p0 ?q0" by (auto simp: follows_def operator_read_def)
  from g have "get_next_token (lexer ?p0) = Inr (t, lx')" by simp
  from follows_token [OF T f0 this, of ?p0 ?q0] obtain t' lq'
    where q: "get_next_token (lexer_at [] (formula @ T)) = Inr (t', lq')"
      and f: "follows formula T p \<lparr>lexer = lq', current_token = t'\<rparr>
        \<or> parted formula p \<lparr>lexer = lq', current_token = t'\<rparr>"
    unfolding pp by auto
  let ?q = "\<lparr>lexer = lq', current_token = t'\<rparr>"
  from ne q have qi: "Parser_init (formula @ T) = Inr ?q"
    by (simp add: Parser_init_def Lexer_init_at)
  from l stranded_dice_loop [of p1] have "\<not> stranded p1" by auto
  with follows_Parser_die [OF T f d] obtain q1
    where q1: "Parser_die ?q = Inr (d, q1)" and f1: "follows formula T p1 q1 \<or> parted formula p1 q1"
    by blast
  from follows_dice_loop [OF T l f1] obtain qf
    where "dice_loop q1 (add_die [] d False) = Inr (bag, qf)" ..
  with qi q1 show ?thesis
    by (simp add: from_str_def Parser_dice_def)
qed

text \<open>
  Claim C9 says that a formula followed by text whose first token is an Integer or a Delim
  parses to the bag of the formula. It does not where the formula ends in a modifier and
  the text starts with a Delim: \<^verbatim>\<open>d6+2\<close> is one die with modifier 2, but in \<^verbatim>\<open>d6+2 d4\<close> the
  look-ahead finds the Delim of the text \<^verbatim>\<open> d4\<close> behind the 2, and the result is the two dice
  \<open>1d6\<close> and \<open>2d4\<close>. Nor where the text starts with a digit right behind the formula:
  \<^verbatim>\<open>d6\<close> followed by \<^verbatim>\<open>5\<close> is \<^verbatim>\<open>d65\<close>.
\<close>

theorem trailing_text_not_always_ignored:
  "from_str ''d6+2'' =
     Inr [\<lparr>die = \<lparr>sides = 6, num_dice = 1, modifier = 2\<rparr>, subtracted = False\<rparr>]
   \<and> Parser_init '' d4'' =
       Inr \<lparr>lexer = \<lparr>lex_text = '' d4'', pos = 2, current_char = Some CHR ''4''\<rparr>,
            current_token = Token DELIM (StrVal ''d'')\<rparr>
   \<and> from_str (''d6+2'' @ '' d4'') =
       Inr [\<lparr>die = \<lparr>sides = 6, num_dice = 1, modifier = 0\<rparr>, subtracted = False\<rparr>,
            \<lparr>die = \<lparr>sides = 4, num_dice = 2, modifier = 0\<rparr>, subtracted = False\<rparr>]
   \<and> from_str ''d6'' =
       Inr [\<lparr>die = \<lparr>sides = 6, num_dice = 1, modifier = 0\<rparr>, subtracted = False\<rparr>]
   \<and> Parser_init ''5'' =
       Inr \<lparr>lexer = \<lparr>lex_text = ''5'', pos = 1, current_char = None\<rparr>,
            current_token = Token INTEGER (IntVal 5)\<rparr>
   \<and> from_str (''d6'' @ ''5'') =
       Inr [\<lparr>die = \<lparr>sides = 65, num_dice = 1, modifier = 0\<rparr>, subtracted = False\<rparr>]"
  by code_simp

text \<open>
  Claim C9, amended. Parsing does not require the end of input. For every formula that
  parses, and every text that does not start with a digit and whose first token is an
  Integer, or is a Delim where the formula ends with the sides of a die (a \<^verbatim>\<open>d\<close>, whitespace
  or none, and digits, so not with a modifier), the formula followed by the text parses
  to the bag of the formula, whatever comes after that first token (also characters that
  no token starts with). So \<^verbatim>\<open>d6 5\<close> is the bag of \<^verbatim>\<open>d6\<close> and \<^verbatim>\<open>2d6 d4\<close> the bag of \<^verbatim>\<open>2d6\<close>.
\<close>

theorem trailing_token_ignored:
  "(from_str formula = Inr bag \<and> token_follows formula T \<longrightarrow> from_str (formula @ T) = Inr bag)
   \<and> from_str ''d6'' =
       Inr [\<lparr>die = \<lparr>sides = 6, num_dice = 1, modifier = 0\<rparr>, subtracted = False\<rparr>]
   \<and> from_str ''d6 5'' =
       Inr [\<lparr>die = \<lparr>sides = 6, num_dice = 1, modifier = 0\<rparr>, subtracted = False\<rparr>]
   \<and> from_str ''2d6'' =
       Inr [\<lparr>die = \<lparr>sides = 6, num_dice = 2, modifier = 0\<rparr>, subtracted = False\<rparr>]
   \<and> from_str ''2d6 d4'' =
       Inr [\<lparr>die = \<lparr>sides = 6, num_dice = 2, modifier = 0\<rparr>, subtracted = False\<rparr>]"
proof (intro conjI impI)
  assume "from_str formula = Inr bag \<and> token_follows formula T"
  then show "from_str (formula @ T) = Inr bag"
    by (intro from_str_trailing) simp_all
qed code_simp+

theorem trailing_token_ignored_witness:
  "from_str ''d6+2'' =
     Inr [\<lparr>die = \<lparr>sides = 6, num_dice = 1, modifier = 2\<rparr>, subtracted = False\<rparr>]
   \<and> token_follows ''d6+2'' '' 5 x''
   \<and> from_str ''d6+2 5 x'' =
       Inr [\<lparr>die = \<lparr>sides = 6, num_dice = 1, modifier = 2\<rparr>, subtracted = False\<rparr>]
   \<and> from_str ''2d6'' =
       Inr [\<lparr>die = \<lparr>sides = 6, num_dice = 2, modifier = 0\<rparr>, subtracted = False\<rparr>]
   \<and> token_follows ''2d6'' ''d4 ?''
   \<and> from_str ''2d6d4 ?'' =
       Inr [\<lparr>die = \<lparr>sides = 6, num_dice = 2, modifier = 0\<rparr>, subtracted = False\<rparr>]"
proof -
  have a: "from_str ''d6+2'' =
      Inr [\<lparr>die = \<lparr>sides = 6, num_dice = 1, modifier = 2\<rparr>, subtracted = False\<rparr>]"
    "token_follows ''d6+2'' '' 5 x''"
    by code_simp+
  have b: "from_str ''2d6'' =
      Inr [\<lparr>die = \<lparr>sides = 6, num_dice = 2, modifier = 0\<rparr>, subtracted = False\<rparr>]"
    "token_follows ''2d6'' ''d4 ?''"
    by code_simp+
  from trailing_token_ignored [of "''d6+2''" _ "'' 5 x''"] a
  have 1: "from_str (''d6+2'' @ '' 5 x'') =
      Inr [\<lparr>die = \<lparr>sides = 6, num_dice = 1, modifier = 2\<rparr>, subtracted = False\<rparr>]"
    by blast
  from trailing_token_ignored [of "''2d6''" _ "''d4 ?''"] b
  have 2: "from_str (''2d6'' @ ''d4 ?'') =
      Inr [\<lparr>die = \<lparr>sides = 6, num_dice = 2, modifier = 0\<rparr>, subtracted = False\<rparr>]"
    by blast
  from a b 1 2 show ?thesis by simp
qed

section \<open>Rendering and parsing back\<close>












definition tail_state :: "string \<Rightarrow> string \<Rightarrow> Parser" where
  "tail_state pre tail =
     (if tail = [] then \<lparr>lexer = lexer_at pre [], current_token = Token EOF NoVal\<rparr>
      else \<lparr>lexer = lexer_at (pre @ '' +'') (drop 2 tail),
            current_token = Token PLUS (StrVal ''+'')\<rparr>)"







lemma tail_state_record:
  "\<lparr>lexer = lexer (tail_state pre tail), current_token = current_token (tail_state pre tail)\<rparr> =
   tail_state pre tail"
  by simp












section \<open>Trailing whitespace\<close>

text \<open>
  Claim C3 says that \<^verbatim>\<open>get_next_token\<close>, when only whitespace is left, skips it and returns
  an \<open>EOF\<close> token, so that a formula followed by whitespace parses like the formula. The
  code does so only when nothing at all is left. When whitespace is left, the current
  character is \<^verbatim>\<open>None\<close> once it is skipped, and the test \<^verbatim>\<open>self.current_char.isdecimal()\<close>
  raises. \<^verbatim>\<open>d6\<close> parses; \<^verbatim>\<open>d6\<close> followed by one space does not.
\<close>

theorem trailing_whitespace_raises:
  "(list_all isspace s \<longrightarrow>
      get_next_token (lexer_at pre s) =
        (if s = [] then Inr (Token EOF NoVal, lexer_at pre []) else Inl NoneAttribute))
   \<and> from_str ''d6'' = Inr [\<lparr>die = \<lparr>sides = 6, num_dice = 1, modifier = 0\<rparr>, subtracted = False\<rparr>]
   \<and> get_next_token \<lparr>lex_text = ''d6 '', pos = 2, current_char = Some CHR '' ''\<rparr> = Inl NoneAttribute
   \<and> from_str ''d6 '' = Inl NoneAttribute"
proof (intro conjI impI)
  assume a: "list_all isspace s"
  show "get_next_token (lexer_at pre s) =
      (if s = [] then Inr (Token EOF NoVal, lexer_at pre []) else Inl NoneAttribute)"
  proof (cases "s = []")
    case True
    then show ?thesis by (simp add: get_next_token_at_end)
  next
    case False
    from a have "dropWhile isspace s = []" by (simp add: list_all_iff)
    with False get_next_token_at [OF False, of pre] show ?thesis by simp
  qed
qed code_simp+

theorem trailing_whitespace_witness:
  "list_all isspace [CHR '' '', CHR 0x09]
   \<and> get_next_token (lexer_at ''d6'' [CHR '' '', CHR 0x09]) = Inl NoneAttribute"
proof -
  have a: "list_all isspace [CHR '' '', CHR 0x09]" by code_simp
  from trailing_whitespace_raises [of "[CHR '' '', CHR 0x09]" "''d6''"] a show ?thesis
    by simp
qed

end
